theory Spec2Isabelle
  imports Complex_Main
begin

section \<open>JavaScript values used by feeder-node\<close>

text \<open>
  A JavaScript number is modelled as a rational, extended by the three non-finite values
  that the arithmetic of the sources can produce (a division by zero in
  \<^verbatim>\<open>FeederNode.getBufferHealth\<close>, an out-of-range element read stored into a
  \<^verbatim>\<open>Float32Array\<close>). Sample counts that the sources compute with \<^verbatim>\<open>/\<close>,
  \<^verbatim>\<open>Math.min\<close> and \<^verbatim>\<open>===\<close> are rationals; the arguments that the sources
  document as counts (\<^verbatim>\<open>nSamples\<close>, \<^verbatim>\<open>nChannels\<close>, \<^verbatim>\<open>batchSize\<close> of a
  constructed backend) are naturals. Rounding of doubles is not modelled: the counts of
  the queue are the program's as long as every chunk written is a whole number of frames
  (the counts are then whole numbers, which doubles hold exactly below \<open>2^53\<close>), and the
  theorems about sequences of queue operations take the writes so.
\<close>

datatype jsnum = Num rat | PosInf | NegInf | NaN

datatype error = Error string | TypeError

type_synonym f32array = "jsnum list"

text \<open>\<^verbatim>\<open>new Float32Array(n)\<close>: n zeros.\<close>

definition f32_new :: "nat \<Rightarrow> f32array" where
  "f32_new n = replicate n (Num 0)"

text \<open>\<^verbatim>\<open>ch.fill(0, 0, n)\<close>: zeros at the positions below n that exist.\<close>

definition f32_fill0 :: "f32array \<Rightarrow> nat \<Rightarrow> f32array" where
  "f32_fill0 ch n = replicate (min n (length ch)) (Num 0) @ drop n ch"

text \<open>\<^verbatim>\<open>ch.fill(0)\<close>: zeros everywhere.\<close>

definition f32_fill0_all :: "f32array \<Rightarrow> f32array" where
  "f32_fill0_all ch = replicate (length ch) (Num 0)"

text \<open>
  \<^verbatim>\<open>chunk[k]\<close> read for storing into a \<^verbatim>\<open>Float32Array\<close>: out of range the read is
  \<^verbatim>\<open>undefined\<close>, which the store converts to NaN.
\<close>

definition f32_get :: "f32array \<Rightarrow> nat \<Rightarrow> jsnum" where
  "f32_get a k = (if k < length a then a ! k else NaN)"

text \<open>
  \<^verbatim>\<open>a[idx] = v\<close> on a \<^verbatim>\<open>Float32Array\<close>: an index that is not an integer inside
  the array is ignored.
\<close>

definition f32_set :: "f32array \<Rightarrow> rat \<Rightarrow> jsnum \<Rightarrow> f32array" where
  "f32_set a idx v =
     (if 0 \<le> idx \<and> idx < of_nat (length a) \<and> of_int \<lfloor>idx\<rfloor> = idx
      then a[nat \<lfloor>idx\<rfloor> := v] else a)"

section \<open>audio-queue.js: the FIFO chunk queue\<close>

record AudioQueue =
  queue :: "f32array list"
  nChannels :: nat
  initialCapacity :: rat
  samplesInQueue :: rat

definition AudioQueue_new :: "rat \<Rightarrow> nat \<Rightarrow> error + AudioQueue" where
  "AudioQueue_new initialCapacity' nChannels' =
     (if initialCapacity' \<le> 0 then Inl (Error ''initialCapacity must be >= 1'')
      else if nChannels' < 1 then Inl (Error ''nChannels must >= 1'')
      else Inr \<lparr>queue = [], nChannels = nChannels',
                initialCapacity = initialCapacity', samplesInQueue = 0\<rparr>)"

definition bufferLength :: "AudioQueue \<Rightarrow> rat" where
  "bufferLength q = samplesInQueue q"

definition getNReadableSamples :: "AudioQueue \<Rightarrow> rat" where
  "getNReadableSamples q = samplesInQueue q"

text \<open>
  The two \<^verbatim>\<open>for\<close> loops of \<^verbatim>\<open>read\<close> that copy one chunk:
  \<^verbatim>\<open>_channels[j][samplesRead + i] = chunk[i * nChannels + j]\<close> for
  \<^verbatim>\<open>i < samplesToReadFromChunk\<close> and \<^verbatim>\<open>j < nChannels\<close>. When fewer output arrays
  than channels were supplied, \<^verbatim>\<open>_channels[j]\<close> is \<^verbatim>\<open>undefined\<close> and the first
  store into it is a TypeError.
\<close>

definition copy_frame :: "nat \<Rightarrow> f32array \<Rightarrow> rat \<Rightarrow> nat \<Rightarrow> f32array list \<Rightarrow> f32array list" where
  "copy_frame n chunk samplesRead i chs =
     fold (\<lambda>j cs. cs[j := f32_set (cs ! j) (samplesRead + of_nat i) (f32_get chunk (i * n + j))])
       [0..<n] chs"

definition copy_chunk ::
  "nat \<Rightarrow> f32array \<Rightarrow> rat \<Rightarrow> rat \<Rightarrow> f32array list \<Rightarrow> error + f32array list" where
  "copy_chunk n chunk samplesRead samplesToReadFromChunk chs =
     (if 0 < samplesToReadFromChunk \<and> length chs < n then Inl TypeError
      else Inr (fold (copy_frame n chunk samplesRead)
                  [0..<nat \<lceil>samplesToReadFromChunk\<rceil>] chs))"

text \<open>
  The \<^verbatim>\<open>while\<close> loop of \<^verbatim>\<open>read\<close>, on the queue, the output arrays and
  \<^verbatim>\<open>samplesRead\<close>. A chunk that is consumed whole is shifted off the queue; a chunk
  that is consumed in part is replaced by \<^verbatim>\<open>chunk.slice(samplesToReadFromChunk * nChannels)\<close>.
\<close>

function read_loop ::
  "nat \<Rightarrow> rat \<Rightarrow> f32array list \<Rightarrow> f32array list \<Rightarrow> rat
   \<Rightarrow> error + (f32array list \<times> f32array list \<times> rat)" where
  "read_loop n readableSamples [] chs samplesRead = Inr ([], chs, samplesRead)"
| "read_loop n readableSamples (chunk # rest) chs samplesRead =
     (if samplesRead < readableSamples then
        (case copy_chunk n chunk samplesRead
                (min (of_nat (length chunk) / of_nat n) (readableSamples - samplesRead)) chs of
           Inl e \<Rightarrow> Inl e
         | Inr chs' \<Rightarrow>
             (if min (of_nat (length chunk) / of_nat n) (readableSamples - samplesRead)
                   = of_nat (length chunk) / of_nat n
              then read_loop n readableSamples rest chs'
                     (samplesRead + min (of_nat (length chunk) / of_nat n)
                                        (readableSamples - samplesRead))
              else read_loop n readableSamples
                     (drop (nat \<lfloor>min (of_nat (length chunk) / of_nat n)
                                      (readableSamples - samplesRead) * of_nat n\<rfloor>) chunk # rest)
                     chs'
                     (samplesRead + min (of_nat (length chunk) / of_nat n)
                                        (readableSamples - samplesRead))))
      else Inr (chunk # rest, chs, samplesRead))"
  by pat_completeness auto
termination
  by (relation "measure (\<lambda>(n, r, qu, chs, s). 2 * length qu + (if s < r then 1 else 0))")
     (auto simp: min_def split: if_splits)

text \<open>
  \<^verbatim>\<open>read(nSamples, channels = null)\<close>. The result is the returned arrays and the
  queue after the call; supplied arrays are mutated in place, so the returned arrays are
  their new contents.
\<close>

definition read :: "nat \<Rightarrow> f32array list option \<Rightarrow> AudioQueue
                     \<Rightarrow> error + (f32array list \<times> AudioQueue)" where
  "read nSamples channels q =
     (let readableSamples = min (of_nat nSamples) (getNReadableSamples q) in
      if readableSamples = 0 then
        Inr (case channels of
               None \<Rightarrow> replicate (nChannels q) (f32_new 0)
             | Some chs \<Rightarrow> map (\<lambda>ch. f32_fill0 ch nSamples) chs, q)
      else
        (case read_loop (nChannels q) readableSamples (queue q)
                (case channels of
                   None \<Rightarrow> replicate (nChannels q) (f32_new nSamples)
                 | Some chs \<Rightarrow> map f32_fill0_all chs) 0 of
           Inl e \<Rightarrow> Inl e
         | Inr (queue', chs', samplesRead) \<Rightarrow>
             Inr (chs', q\<lparr>queue := queue', samplesInQueue := samplesInQueue q - samplesRead\<rparr>)))"

text \<open>
  \<^verbatim>\<open>write(float32Data)\<close>. A typed array is given by the contents of
  \<^verbatim>\<open>new Float32Array(float32Data)\<close>, its elements as 32-bit floats, which is what the
  queue stores. Any other value is refused: for \<^verbatim>\<open>null\<close> and \<^verbatim>\<open>undefined\<close> building
  the message reads \<^verbatim>\<open>float32Data.constructor\<close> and is a TypeError, for the rest the
  message is thrown. The result is the returned pair \<^verbatim>\<open>[false, samplesInQueue]\<close> and the
  queue after the call.
\<close>

datatype js_data = TypedArray f32array | NotAView | Nullish

definition write_q :: "js_data \<Rightarrow> AudioQueue \<Rightarrow> error + ((bool \<times> rat) \<times> AudioQueue)" where
  "write_q float32Data q =
     (case float32Data of
        Nullish \<Rightarrow> Inl TypeError
      | NotAView \<Rightarrow> Inl (Error ''Must submit a TypedArray'')
      | TypedArray copy \<Rightarrow>
          (let q' = q\<lparr>queue := queue q @ [copy],
                      samplesInQueue := samplesInQueue q + of_nat (length copy) / of_nat (nChannels q)\<rparr>
           in Inr ((False, samplesInQueue q'), q')))"

definition clear :: "AudioQueue \<Rightarrow> AudioQueue" where
  "clear q = q\<lparr>queue := [], samplesInQueue := 0\<rparr>"

section \<open>abstract-backend.js: the enumerations\<close>

datatype BackendState = UNINITIALIZED | READY | PLAYING | STARVED

definition RING_BUFFER :: string where
  "RING_BUFFER = ''ring_buffer''"

definition FIFO_QUEUE :: string where
  "FIFO_QUEUE = ''fifo_queue''"

section \<open>The buffer of a backend\<close>

text \<open>
  A backend holds an \<^verbatim>\<open>AudioQueue\<close> or a \<^verbatim>\<open>RingBuffer\<close> and calls the same
  methods on either. The file ring-buffer.js is not among the sources, so the methods of
  \<^verbatim>\<open>RingBuffer\<close> are a parameter \<open>R\<close> of every function that may reach them, and
  nothing is assumed about what they do.
\<close>

record 'r RingBuffer =
  RingBuffer_new :: "rat \<Rightarrow> nat \<Rightarrow> error + 'r"
  ring_bufferLength :: "'r \<Rightarrow> rat"
  ring_getNReadableSamples :: "'r \<Rightarrow> rat"
  ring_read :: "nat \<Rightarrow> f32array list option \<Rightarrow> 'r \<Rightarrow> error + (f32array list \<times> 'r)"
  ring_write :: "js_data \<Rightarrow> 'r \<Rightarrow> error + ((bool \<times> rat) \<times> 'r)"
  ring_clear :: "'r \<Rightarrow> 'r"

datatype 'r buffer = Queue AudioQueue | Ring 'r

definition buffer_new :: "'r RingBuffer \<Rightarrow> string \<Rightarrow> rat \<Rightarrow> nat \<Rightarrow> error + 'r buffer" where
  "buffer_new R bufferType bufferLength' nChannels' =
     (if bufferType = FIFO_QUEUE
      then (case AudioQueue_new bufferLength' nChannels' of
              Inl e \<Rightarrow> Inl e | Inr q \<Rightarrow> Inr (Queue q))
      else (case RingBuffer_new R bufferLength' nChannels' of
              Inl e \<Rightarrow> Inl e | Inr r \<Rightarrow> Inr (Ring r)))"

definition buffer_bufferLength :: "'r RingBuffer \<Rightarrow> 'r buffer \<Rightarrow> rat" where
  "buffer_bufferLength R b =
     (case b of Queue q \<Rightarrow> bufferLength q | Ring r \<Rightarrow> ring_bufferLength R r)"

definition buffer_getNReadableSamples :: "'r RingBuffer \<Rightarrow> 'r buffer \<Rightarrow> rat" where
  "buffer_getNReadableSamples R b =
     (case b of Queue q \<Rightarrow> getNReadableSamples q | Ring r \<Rightarrow> ring_getNReadableSamples R r)"

definition buffer_read ::
  "'r RingBuffer \<Rightarrow> nat \<Rightarrow> f32array list option \<Rightarrow> 'r buffer
   \<Rightarrow> error + (f32array list \<times> 'r buffer)" where
  "buffer_read R nSamples channels b =
     (case b of
        Queue q \<Rightarrow> (case read nSamples channels q of
                      Inl e \<Rightarrow> Inl e | Inr (outs, q') \<Rightarrow> Inr (outs, Queue q'))
      | Ring r \<Rightarrow> (case ring_read R nSamples channels r of
                     Inl e \<Rightarrow> Inl e | Inr (outs, r') \<Rightarrow> Inr (outs, Ring r')))"

definition buffer_write ::
  "'r RingBuffer \<Rightarrow> js_data \<Rightarrow> 'r buffer \<Rightarrow> error + ((bool \<times> rat) \<times> 'r buffer)" where
  "buffer_write R float32Data b =
     (case b of
        Queue q \<Rightarrow> (case write_q float32Data q of
                      Inl e \<Rightarrow> Inl e | Inr (res, q') \<Rightarrow> Inr (res, Queue q'))
      | Ring r \<Rightarrow> (case ring_write R float32Data r of
                     Inl e \<Rightarrow> Inl e | Inr (res, r') \<Rightarrow> Inr (res, Ring r')))"

definition buffer_clear :: "'r RingBuffer \<Rightarrow> 'r buffer \<Rightarrow> 'r buffer" where
  "buffer_clear R b = (case b of Queue q \<Rightarrow> Queue (clear q) | Ring r \<Rightarrow> Ring (ring_clear R r))"

text \<open>
  Modelled from the spec: \<^verbatim>\<open>writeSilence\<close> of util.js, which is not among the sources.
  The spec (4.4) says that in every state but Playing the pull fills the output with
  zeroed frames.
\<close>

definition writeSilence :: "f32array list \<Rightarrow> f32array list" where
  "writeSilence outs = map f32_fill0_all outs"

section \<open>script-processor-backend.js\<close>

text \<open>
  The field \<open>stateChanges\<close> records the calls of the \<^verbatim>\<open>onStateChange\<close> callback, oldest
  first. The \<^verbatim>\<open>audioNode\<close> is the platform's and is left out.
\<close>

record 'r ScriptProcessorBackend =
  batchSize :: nat
  sp_nChannels :: nat
  bufferThreshold :: rat
  sp_bufferType :: string
  sp_buffer :: "'r buffer"
  state :: BackendState
  stateChanges :: "BackendState list"

definition ScriptProcessorBackend_new ::
  "'r RingBuffer \<Rightarrow> nat \<Rightarrow> nat \<Rightarrow> rat \<Rightarrow> rat \<Rightarrow> string \<Rightarrow> error + 'r ScriptProcessorBackend" where
  "ScriptProcessorBackend_new R nChannels' batchSize' bufferLength' bufferThreshold' bufferType =
     (case buffer_new R bufferType bufferLength' nChannels' of
        Inl e \<Rightarrow> Inl e
      | Inr buf \<Rightarrow> Inr \<lparr>batchSize = batchSize', sp_nChannels = nChannels',
                         bufferThreshold = bufferThreshold', sp_bufferType = bufferType,
                         sp_buffer = buf, state = READY, stateChanges = []\<rparr>)"

definition sp_bufferLength :: "'r RingBuffer \<Rightarrow> 'r ScriptProcessorBackend \<Rightarrow> rat" where
  "sp_bufferLength R b = buffer_bufferLength R (sp_buffer b)"

definition sp_feed ::
  "'r RingBuffer \<Rightarrow> js_data \<Rightarrow> 'r ScriptProcessorBackend \<Rightarrow> error + 'r ScriptProcessorBackend" where
  "sp_feed R float32Array b =
     (case buffer_write R float32Array (sp_buffer b) of
        Inl e \<Rightarrow> Inl e | Inr (res, buf) \<Rightarrow> Inr (b\<lparr>sp_buffer := buf\<rparr>))"

definition sp_clearBuffer :: "'r RingBuffer \<Rightarrow> 'r ScriptProcessorBackend \<Rightarrow> 'r ScriptProcessorBackend" where
  "sp_clearBuffer R b = b\<lparr>sp_buffer := buffer_clear R (sp_buffer b)\<rparr>"

definition sp_getCurrentBufferFill :: "'r RingBuffer \<Rightarrow> 'r ScriptProcessorBackend \<Rightarrow> rat" where
  "sp_getCurrentBufferFill R b = buffer_getNReadableSamples R (sp_buffer b)"

definition sp_onStateChange :: "'r ScriptProcessorBackend \<Rightarrow> 'r ScriptProcessorBackend" where
  "sp_onStateChange b = b\<lparr>stateChanges := stateChanges b @ [state b]\<rparr>"

definition sp_updateState :: "'r RingBuffer \<Rightarrow> 'r ScriptProcessorBackend \<Rightarrow> 'r ScriptProcessorBackend" where
  "sp_updateState R b =
     (let staleState = state b in
      case state b of
        UNINITIALIZED \<Rightarrow> b
      | PLAYING \<Rightarrow>
          (let b' = (if buffer_getNReadableSamples R (sp_buffer b) = 0
                     then b\<lparr>state := STARVED\<rparr> else b)
           in if staleState \<noteq> state b' then sp_onStateChange b' else b')
      | READY \<Rightarrow>
          (let b' = (if buffer_getNReadableSamples R (sp_buffer b) \<ge> bufferThreshold b
                     then b\<lparr>state := PLAYING\<rparr> else b)
           in if staleState \<noteq> state b' then sp_onStateChange b' else b')
      | STARVED \<Rightarrow>
          (let b' = (if buffer_getNReadableSamples R (sp_buffer b) \<ge> bufferThreshold b
                     then b\<lparr>state := PLAYING\<rparr> else b)
           in if staleState \<noteq> state b' then sp_onStateChange b' else b'))"

text \<open>
  \<^verbatim>\<open>_playNext(audioProcessingEvent)\<close>: the argument is the channel arrays of the event's
  \<^verbatim>\<open>outputBuffer\<close>; \<^verbatim>\<open>getChannelData(i)\<close> fails for a channel that the buffer does
  not have. The result is the new contents of those arrays and the backend after the call.
\<close>

definition sp_playNext ::
  "'r RingBuffer \<Rightarrow> f32array list \<Rightarrow> 'r ScriptProcessorBackend
   \<Rightarrow> error + (f32array list \<times> 'r ScriptProcessorBackend)" where
  "sp_playNext R outputBuffer b =
     (let b1 = sp_updateState R b in
      if length outputBuffer < sp_nChannels b1 then Inl (Error ''IndexSizeError'')
      else
        (let outs = take (sp_nChannels b1) outputBuffer in
         if state b1 = PLAYING then
           (case buffer_read R (batchSize b1) (Some outs) (sp_buffer b1) of
              Inl e \<Rightarrow> Inl e
            | Inr (outs', buf) \<Rightarrow>
                Inr (outs' @ drop (sp_nChannels b1) outputBuffer, b1\<lparr>sp_buffer := buf\<rparr>))
         else Inr (writeSilence outs @ drop (sp_nChannels b1) outputBuffer, b1)))"

text \<open>
  \<^verbatim>\<open>setBufferThreshold(threshold)\<close>: the thrown string, if any, and the backend after
  the call.
\<close>

definition sp_setBufferThreshold ::
  "'r RingBuffer \<Rightarrow> rat \<Rightarrow> 'r ScriptProcessorBackend \<Rightarrow> error option \<times> 'r ScriptProcessorBackend" where
  "sp_setBufferThreshold R threshold b =
     (if threshold < 0 then (Some (Error ''bufferThreshold cannot be less than 0''), b)
      else if threshold > sp_bufferLength R b
      then (Some (Error ''bufferThreshold cannot be greater than bufferLength''), b)
      else (None, b\<lparr>bufferThreshold := threshold\<rparr>))"

section \<open>The messages between the main thread and the worklet\<close>

datatype to_worklet =
    Init rat nat rat string
  | Feed js_data
  | SetBufferThreshold rat
  | Connect
  | GetBufferFill "nat option"
  | ClearBuffer
  | Unspecified

datatype to_main =
    StateChange BackendState
  | BufferLengthChange rat
  | BufferFillUpdate rat "nat option"
  | Unrecognized

section \<open>The worklet processor\<close>

text \<open>
  \<^verbatim>\<open>WorkletProcessor\<close>. The threshold and the buffer are \<^verbatim>\<open>undefined\<close> until
  \<^verbatim>\<open>_init\<close>; a comparison with \<^verbatim>\<open>undefined\<close> is false, a method call on it is a
  TypeError. The field \<open>wp_port\<close> records the messages posted to the main thread, oldest
  first.
\<close>

record 'r WorkletProcessor =
  wp_bufferThreshold :: "rat option"
  wp_state :: BackendState
  wp_bufferType :: string
  wp_buffer :: "'r buffer option"
  wp_port :: "to_main list"

definition BATCH_SIZE :: nat where
  "BATCH_SIZE = 128"

definition WorkletProcessor_new :: "'r WorkletProcessor" where
  "WorkletProcessor_new =
     \<lparr>wp_bufferThreshold = None, wp_state = UNINITIALIZED, wp_bufferType = RING_BUFFER,
      wp_buffer = None, wp_port = []\<rparr>"

definition wp_notifyStateChange :: "'r WorkletProcessor \<Rightarrow> 'r WorkletProcessor" where
  "wp_notifyStateChange p = p\<lparr>wp_port := wp_port p @ [StateChange (wp_state p)]\<rparr>"

definition wp_updateState :: "'r RingBuffer \<Rightarrow> 'r WorkletProcessor \<Rightarrow> error + 'r WorkletProcessor" where
  "wp_updateState R p =
     (let staleState = wp_state p in
      case wp_state p of
        UNINITIALIZED \<Rightarrow> Inr p
      | PLAYING \<Rightarrow>
          (case wp_buffer p of
             None \<Rightarrow> Inl TypeError
           | Some buf \<Rightarrow>
               (let p' = (if buffer_getNReadableSamples R buf = 0
                          then p\<lparr>wp_state := STARVED\<rparr> else p)
                in Inr (if staleState \<noteq> wp_state p' then wp_notifyStateChange p' else p')))
      | READY \<Rightarrow>
          (case wp_buffer p of
             None \<Rightarrow> Inl TypeError
           | Some buf \<Rightarrow>
               (let p' = (if (case wp_bufferThreshold p of
                                None \<Rightarrow> False
                              | Some t \<Rightarrow> buffer_getNReadableSamples R buf \<ge> t)
                          then p\<lparr>wp_state := PLAYING\<rparr> else p)
                in Inr (if staleState \<noteq> wp_state p' then wp_notifyStateChange p' else p')))
      | STARVED \<Rightarrow>
          (case wp_buffer p of
             None \<Rightarrow> Inl TypeError
           | Some buf \<Rightarrow>
               (let p' = (if (case wp_bufferThreshold p of
                                None \<Rightarrow> False
                              | Some t \<Rightarrow> buffer_getNReadableSamples R buf \<ge> t)
                          then p\<lparr>wp_state := PLAYING\<rparr> else p)
                in Inr (if staleState \<noteq> wp_state p' then wp_notifyStateChange p' else p'))))"

text \<open>
  \<^verbatim>\<open>process(inputs, outputs, parameters)\<close>: the argument is \<^verbatim>\<open>outputs[0]\<close>, the
  result its new contents and the processor after the call.
\<close>

definition process ::
  "'r RingBuffer \<Rightarrow> f32array list \<Rightarrow> 'r WorkletProcessor
   \<Rightarrow> error + (f32array list \<times> 'r WorkletProcessor)" where
  "process R outputs0 p =
     (case wp_updateState R p of
        Inl e \<Rightarrow> Inl e
      | Inr p1 \<Rightarrow>
          if wp_state p1 = PLAYING then
            (case wp_buffer p1 of
               None \<Rightarrow> Inl TypeError
             | Some buf \<Rightarrow>
                 (case buffer_read R BATCH_SIZE (Some outputs0) buf of
                    Inl e \<Rightarrow> Inl e
                  | Inr (outs', buf') \<Rightarrow> Inr (outs', p1\<lparr>wp_buffer := Some buf'\<rparr>)))
          else Inr (writeSilence outputs0, p1))"

definition wp_sendBufferFill :: "'r RingBuffer \<Rightarrow> nat option \<Rightarrow> 'r WorkletProcessor \<Rightarrow> 'r WorkletProcessor" where
  "wp_sendBufferFill R callbackId p =
     (case wp_buffer p of
        None \<Rightarrow> p
      | Some buf \<Rightarrow>
          p\<lparr>wp_port := wp_port p @ [BufferFillUpdate (buffer_getNReadableSamples R buf) callbackId]\<rparr>)"

definition wp_feed :: "'r RingBuffer \<Rightarrow> js_data \<Rightarrow> 'r WorkletProcessor \<Rightarrow> error + 'r WorkletProcessor" where
  "wp_feed R float32Array p =
     (case wp_buffer p of
        None \<Rightarrow> Inl TypeError
      | Some buf \<Rightarrow>
          (case buffer_write R float32Array buf of
             Inl e \<Rightarrow> Inl e
           | Inr ((didResize, bufferLength'), buf') \<Rightarrow>
               (let p1 = p\<lparr>wp_buffer := Some buf'\<rparr>;
                    p2 = (if didResize
                          then p1\<lparr>wp_port := wp_port p1 @ [BufferLengthChange bufferLength']\<rparr>
                          else p1)
                in Inr (wp_sendBufferFill R None p2))))"

definition wp_init ::
  "'r RingBuffer \<Rightarrow> rat \<Rightarrow> nat \<Rightarrow> rat \<Rightarrow> 'r WorkletProcessor \<Rightarrow> error + 'r WorkletProcessor" where
  "wp_init R bufferLength' nChannels' bufferThreshold' p =
     (case buffer_new R (wp_bufferType p) bufferLength' nChannels' of
        Inl e \<Rightarrow> Inl e
      | Inr buf \<Rightarrow>
          Inr (wp_notifyStateChange
                 (p\<lparr>wp_buffer := Some buf, wp_bufferThreshold := Some bufferThreshold',
                    wp_state := READY\<rparr>)))"

definition wp_onMessage :: "'r RingBuffer \<Rightarrow> to_worklet \<Rightarrow> 'r WorkletProcessor \<Rightarrow> error + 'r WorkletProcessor" where
  "wp_onMessage R msg p =
     (case msg of
        Init bufferLength' nChannels' bufferThreshold' bufferType \<Rightarrow>
          wp_init R bufferLength' nChannels' bufferThreshold' (p\<lparr>wp_bufferType := bufferType\<rparr>)
      | Feed d \<Rightarrow> wp_feed R d p
      | SetBufferThreshold t \<Rightarrow> Inr (p\<lparr>wp_bufferThreshold := Some t\<rparr>)
      | Connect \<Rightarrow> Inr p
      | GetBufferFill callbackId \<Rightarrow> Inr (wp_sendBufferFill R callbackId p)
      | ClearBuffer \<Rightarrow>
          (case wp_buffer p of
             None \<Rightarrow> Inr p
           | Some buf \<Rightarrow> Inr (p\<lparr>wp_buffer := Some (buffer_clear R buf)\<rparr>))
      | Unspecified \<Rightarrow> Inl (Error ''command not specified''))"

section \<open>audio-worklet-backend.js\<close>

text \<open>
  \<^verbatim>\<open>AudioWorkletBackend\<close>. The field \<open>aw_port\<close> records the messages posted to the
  worklet processor, \<open>aw_stateChanges\<close> the calls of \<^verbatim>\<open>onStateChange\<close>, both oldest
  first. Nothing in the sources adds to \<^verbatim>\<open>_bufferFillCallbacks\<close>, so the table stays
  empty and is left out.
\<close>

record AudioWorkletBackend =
  aw_nChannels :: nat
  aw_bufferLength :: rat
  aw_batchSize :: nat
  aw_state :: BackendState
  aw_currentBufferFill :: rat
  aw_bufferType :: string
  aw_port :: "to_worklet list"
  aw_stateChanges :: "BackendState list"

definition AudioWorkletBackend_new :: "nat \<Rightarrow> rat \<Rightarrow> string \<Rightarrow> AudioWorkletBackend" where
  "AudioWorkletBackend_new nChannels' bufferLength' bufferType =
     \<lparr>aw_nChannels = nChannels', aw_bufferLength = bufferLength', aw_batchSize = 128,
      aw_state = READY, aw_currentBufferFill = 0, aw_bufferType = bufferType,
      aw_port = [], aw_stateChanges = []\<rparr>"

text \<open>
  \<^verbatim>\<open>feed(float32Array)\<close> posts the data with \<^verbatim>\<open>float32Array.buffer\<close> as the transfer
  list: a value that is not a typed array has no buffer to transfer, and the post is a
  TypeError.
\<close>

definition aw_feed :: "js_data \<Rightarrow> AudioWorkletBackend \<Rightarrow> error + AudioWorkletBackend" where
  "aw_feed float32Array b =
     (if aw_state b = UNINITIALIZED then Inr b
      else (case float32Array of
              TypedArray xs \<Rightarrow> Inr (b\<lparr>aw_port := aw_port b @ [Feed float32Array]\<rparr>)
            | NotAView \<Rightarrow> Inl TypeError
            | Nullish \<Rightarrow> Inl TypeError))"

definition aw_getCurrentBufferFill :: "AudioWorkletBackend \<Rightarrow> rat \<times> AudioWorkletBackend" where
  "aw_getCurrentBufferFill b =
     (aw_currentBufferFill b, b\<lparr>aw_port := aw_port b @ [GetBufferFill None]\<rparr>)"

definition aw_setBufferThreshold ::
  "rat \<Rightarrow> AudioWorkletBackend \<Rightarrow> error option \<times> AudioWorkletBackend" where
  "aw_setBufferThreshold threshold b =
     (if threshold < 0 then (Some (Error ''bufferThreshold cannot be less than 0''), b)
      else if threshold > aw_bufferLength b
      then (Some (Error ''bufferThreshold cannot be greater than bufferLength''), b)
      else (None, b\<lparr>aw_port := aw_port b @ [SetBufferThreshold threshold]\<rparr>))"

definition aw_onMessage :: "to_main \<Rightarrow> AudioWorkletBackend \<Rightarrow> error + AudioWorkletBackend" where
  "aw_onMessage msg b =
     (case msg of
        BufferLengthChange bufferLength' \<Rightarrow> Inr (b\<lparr>aw_bufferLength := bufferLength'\<rparr>)
      | StateChange s \<Rightarrow> Inr (b\<lparr>aw_stateChanges := aw_stateChanges b @ [s]\<rparr>)
      | BufferFillUpdate bufferFill callbackId \<Rightarrow> Inr (b\<lparr>aw_currentBufferFill := bufferFill\<rparr>)
      | Unrecognized \<Rightarrow> Inl (Error ''command unrecognized''))"

definition aw_clearBuffer :: "AudioWorkletBackend \<Rightarrow> AudioWorkletBackend" where
  "aw_clearBuffer b = b\<lparr>aw_port := aw_port b @ [ClearBuffer]\<rparr>"

section \<open>feeder-node.js: FeederNode\<close>

text \<open>
  A \<^verbatim>\<open>FeederNode\<close> calls its backend, which is one of the two backend classes. The
  resampler is an external stage and is left out.
\<close>

datatype 'r FeederNode =
    ScriptProcessor "'r ScriptProcessorBackend"
  | AudioWorklet AudioWorkletBackend

definition fn_bufferLength :: "'r RingBuffer \<Rightarrow> 'r FeederNode \<Rightarrow> rat" where
  "fn_bufferLength R node =
     (case node of ScriptProcessor b \<Rightarrow> sp_bufferLength R b | AudioWorklet b \<Rightarrow> aw_bufferLength b)"

definition fn_getCurrentBufferFill :: "'r RingBuffer \<Rightarrow> 'r FeederNode \<Rightarrow> rat \<times> 'r FeederNode" where
  "fn_getCurrentBufferFill R node =
     (case node of
        ScriptProcessor b \<Rightarrow> (sp_getCurrentBufferFill R b, node)
      | AudioWorklet b \<Rightarrow> (case aw_getCurrentBufferFill b of (v, b') \<Rightarrow> (v, AudioWorklet b')))"

definition fn_setBufferThreshold ::
  "'r RingBuffer \<Rightarrow> rat \<Rightarrow> 'r FeederNode \<Rightarrow> error option \<times> 'r FeederNode" where
  "fn_setBufferThreshold R threshold node =
     (case node of
        ScriptProcessor b \<Rightarrow>
          (case sp_setBufferThreshold R threshold b of (e, b') \<Rightarrow> (e, ScriptProcessor b'))
      | AudioWorklet b \<Rightarrow>
          (case aw_setBufferThreshold threshold b of (e, b') \<Rightarrow> (e, AudioWorklet b')))"

text \<open>\<^verbatim>\<open>a / b\<close>, \<^verbatim>\<open>Math.max\<close> and \<^verbatim>\<open>Math.min\<close> of JavaScript numbers.\<close>

definition js_div :: "rat \<Rightarrow> rat \<Rightarrow> jsnum" where
  "js_div a b =
     (if b = 0 then (if a = 0 then NaN else if 0 < a then PosInf else NegInf)
      else Num (a / b))"

fun js_max :: "jsnum \<Rightarrow> jsnum \<Rightarrow> jsnum" where
  "js_max NaN y = NaN"
| "js_max x NaN = NaN"
| "js_max PosInf y = PosInf"
| "js_max x PosInf = PosInf"
| "js_max NegInf y = y"
| "js_max x NegInf = x"
| "js_max (Num a) (Num b) = Num (max a b)"

fun js_min :: "jsnum \<Rightarrow> jsnum \<Rightarrow> jsnum" where
  "js_min NaN y = NaN"
| "js_min x NaN = NaN"
| "js_min NegInf y = NegInf"
| "js_min x NegInf = NegInf"
| "js_min PosInf y = y"
| "js_min x PosInf = x"
| "js_min (Num a) (Num b) = Num (min a b)"

definition getBufferHealth :: "'r RingBuffer \<Rightarrow> 'r FeederNode \<Rightarrow> jsnum \<times> 'r FeederNode" where
  "getBufferHealth R node =
     (case fn_getCurrentBufferFill R node of
        (currentFill, node') \<Rightarrow>
          (let maxFill = fn_bufferLength R node'
           in (js_min (Num 1) (js_max (Num 0) (js_div currentFill maxFill)), node')))"

section \<open>index.js: validation and construction\<close>

definition VALID_BATCH_SIZES :: "rat list" where
  "VALID_BATCH_SIZES = [128, 256, 512, 1024, 2048, 4096, 8192, 16384]"

text \<open>
  \<^verbatim>\<open>validate\<close>. The first argument is \<open>None\<close> when \<^verbatim>\<open>nChannels\<close> is
  \<^verbatim>\<open>undefined\<close>. The thrown template strings are modelled by their fixed part.
\<close>

definition validate ::
  "rat option \<Rightarrow> rat \<Rightarrow> rat \<Rightarrow> rat \<Rightarrow> rat \<Rightarrow> rat \<Rightarrow> string \<Rightarrow> error + unit" where
  "validate nChannels' batchSize' bufferThreshold' bufferLength' converterType inputSampleRate bufferType =
     (case nChannels' of
        None \<Rightarrow> Inl (Error ''nChannels is undefined'')
      | Some n \<Rightarrow>
          if n < 1 \<or> n > 2 then Inl (Error ''invalid nChannels'')
          else if batchSize' \<notin> set VALID_BATCH_SIZES then Inl (Error ''invalid batchSize'')
          else if bufferLength' < 16384 then Inl (Error ''buffer length must be greater than 16384'')
          else if bufferThreshold' < 0 then Inl (Error ''bufferThreshold cannot be less than 0'')
          else if bufferThreshold' > bufferLength'
          then Inl (Error ''bufferThreshold cannot be greater than bufferLength'')
          else if converterType < 0 \<or> converterType > 4 then Inl (Error ''invalid converterType'')
          else if inputSampleRate < 1 \<or> inputSampleRate > 192000
          then Inl (Error ''invalid inputSampleRate'')
          else if bufferType \<noteq> RING_BUFFER \<and> bufferType \<noteq> FIFO_QUEUE
          then Inl (Error ''invalid bufferType'')
          else Inr ())"

text \<open>
  The options object of \<^verbatim>\<open>createNode\<close>: a member is \<open>None\<close> when it is absent. The
  platform is a parameter: whether \<^verbatim>\<open>window.AudioWorklet\<close> and
  \<^verbatim>\<open>window.WebAssembly\<close> exist, the context's sample rate, and the constant
  \<^verbatim>\<open>ConverterType.SRC_SINC_FASTEST\<close> of libsamplerate-js.
\<close>

record options =
  opt_batchSize :: "rat option"
  opt_bufferThreshold :: "rat option"
  opt_bufferLength :: "rat option"
  opt_bufferType :: "string option"
  opt_resampConverterType :: "rat option"
  opt_inputSampleRate :: "rat option"

record platform =
  hasAudioWorklet :: bool
  hasWebAssembly :: bool
  sampleRate :: rat
  SRC_SINC_FASTEST :: rat

text \<open>\<^verbatim>\<open>x || d\<close> on an optional number and on an optional string.\<close>

definition or_num :: "rat option \<Rightarrow> rat \<Rightarrow> rat" where
  "or_num x d = (case x of None \<Rightarrow> d | Some v \<Rightarrow> if v = 0 then d else v)"

definition or_str :: "string option \<Rightarrow> string \<Rightarrow> string" where
  "or_str x d = (case x of None \<Rightarrow> d | Some v \<Rightarrow> if v = [] then d else v)"

text \<open>
  The resources that \<^verbatim>\<open>createNode\<close> creates, in the order of their creation:
  \<^verbatim>\<open>createBackend\<close> chooses the worklet backend when the platform has
  \<^verbatim>\<open>AudioWorklet\<close>, \<^verbatim>\<open>createResampler\<close> the worker resampler when it has
  \<^verbatim>\<open>WebAssembly\<close>. What the constructors do is outside this model.
\<close>

datatype resource =
    AudioWorkletBackendResource
  | ScriptProcessorBackendResource
  | WorkerResamplerResource
  | MainThreadResamplerResource

definition createBackend :: "platform \<Rightarrow> resource" where
  "createBackend w = (if hasAudioWorklet w then AudioWorkletBackendResource
                      else ScriptProcessorBackendResource)"

definition createResampler :: "platform \<Rightarrow> resource" where
  "createResampler w = (if hasWebAssembly w then WorkerResamplerResource
                        else MainThreadResamplerResource)"

text \<open>
  \<^verbatim>\<open>createNode(context, nChannels, options)\<close>: the error of the validation, if any,
  and the resources created, oldest first.
\<close>

definition createNode :: "platform \<Rightarrow> rat option \<Rightarrow> options \<Rightarrow> error option \<times> resource list" where
  "createNode w nChannels' opts =
     (let batchSize' = or_num (opt_batchSize opts) (if hasAudioWorklet w then 128 else 512);
          bufferThreshold' = or_num (opt_bufferThreshold opts) 4096;
          bufferLength' = or_num (opt_bufferLength opts) 192000;
          bufferType = or_str (opt_bufferType opts) RING_BUFFER;
          converterType = (case opt_resampConverterType opts of
                             None \<Rightarrow> SRC_SINC_FASTEST w | Some c \<Rightarrow> c);
          inputSampleRate = or_num (opt_inputSampleRate opts) (sampleRate w)
      in case validate nChannels' batchSize' bufferThreshold' bufferLength' converterType
                inputSampleRate bufferType of
           Inl e \<Rightarrow> (Some e, [])
         | Inr u \<Rightarrow> (None, [createBackend w, createResampler w]))"

text \<open>
  The ranges of the construction-time configuration in the words of the spec (section 6):
  channel count in [1,2], batch size in the enumerated set, buffer length at least 16384,
  threshold in [0, buffer length], converter selector in its range (0 to 4, the bounds that
  \<^verbatim>\<open>validate\<close> checks), input sample rate in (0, 192000].
\<close>

definition spec_in_range :: "rat option \<Rightarrow> rat \<Rightarrow> rat \<Rightarrow> rat \<Rightarrow> rat \<Rightarrow> rat \<Rightarrow> bool" where
  "spec_in_range nChannels' batchSize' bufferThreshold' bufferLength' converterType inputSampleRate =
     ((case nChannels' of None \<Rightarrow> False | Some n \<Rightarrow> 1 \<le> n \<and> n \<le> 2)
      \<and> batchSize' \<in> set VALID_BATCH_SIZES
      \<and> 16384 \<le> bufferLength'
      \<and> 0 \<le> bufferThreshold' \<and> bufferThreshold' \<le> bufferLength'
      \<and> 0 \<le> converterType \<and> converterType \<le> 4
      \<and> 0 < inputSampleRate \<and> inputSampleRate \<le> 192000)"

section \<open>Sequences of queue operations\<close>

text \<open>
  A caller of the queue issues writes, reads and clears. The run of a sequence keeps, beside
  the queue, what a test harness would record: all data written, in write order; per
  channel, the samples that the reads handed out, in read order; the number of frames that
  reads took out of the queue; and the number of frames that clears threw away. A read of
  \<open>n\<close> samples hands out the first \<open>min(n, available)\<close> entries of each returned array,
  where \<open>available\<close> is the readable count before the read.
\<close>

datatype op = Write js_data | Read nat "f32array list option" | Clear

record history =
  written :: f32array
  delivered :: "f32array list"
  consumed :: rat
  discarded :: rat

definition stored :: "AudioQueue \<Rightarrow> rat" where
  "stored q = of_nat (length (concat (queue q))) / of_nat (nChannels q)"

definition data_of :: "js_data \<Rightarrow> f32array" where
  "data_of d = (case d of TypedArray xs \<Rightarrow> xs | NotAView \<Rightarrow> [] | Nullish \<Rightarrow> [])"

definition run_op :: "op \<Rightarrow> history \<times> AudioQueue \<Rightarrow> error + (history \<times> AudioQueue)" where
  "run_op o' hq =
     (case hq of (h, q) \<Rightarrow>
        (case o' of
           Write d \<Rightarrow>
             (case write_q d q of
                Inl e \<Rightarrow> Inl e
              | Inr (res, q') \<Rightarrow> Inr (h\<lparr>written := written h @ data_of d\<rparr>, q'))
         | Read n channels \<Rightarrow>
             (case read n channels q of
                Inl e \<Rightarrow> Inl e
              | Inr (outs, q') \<Rightarrow>
                  Inr (h\<lparr>delivered :=
                           map (\<lambda>(d, out). d @ take (nat \<lfloor>min (of_nat n) (getNReadableSamples q)\<rfloor>) out)
                             (zip (delivered h) outs),
                         consumed := consumed h + (stored q - stored q')\<rparr>, q'))
         | Clear \<Rightarrow> Inr (h\<lparr>discarded := discarded h + (stored q - stored (clear q))\<rparr>, clear q)))"

fun run :: "op list \<Rightarrow> history \<times> AudioQueue \<Rightarrow> error + (history \<times> AudioQueue)" where
  "run [] hq = Inr hq"
| "run (o' # os) hq = (case run_op o' hq of Inl e \<Rightarrow> Inl e | Inr hq' \<Rightarrow> run os hq')"

definition start :: "AudioQueue \<Rightarrow> history \<times> AudioQueue" where
  "start q = (\<lparr>written = [], delivered = replicate (nChannels q) [], consumed = 0, discarded = 0\<rparr>, q)"

text \<open>
  Channel \<open>j\<close> of interleaved data with \<open>n\<close> channels (the glossary of the spec: a flat
  sequence ordering channel 0 to channel n - 1 per frame).
\<close>

definition channel :: "nat \<Rightarrow> nat \<Rightarrow> f32array \<Rightarrow> f32array" where
  "channel n j xs = map (\<lambda>i. xs ! (i * n + j)) [0..<length xs div n]"


text \<open>A sequence of operations whose writes are whole frames; reads and clears are free.\<close>

fun whole_write :: "nat \<Rightarrow> op \<Rightarrow> bool" where
  "whole_write n (Write d) = (n dvd length (data_of d))"
| "whole_write n (Read k channels) = True"
| "whole_write n Clear = True"

text \<open>
  The counts of the FIFO of the spec (4.2), from the operations alone: the frames available
  and the frames that reads have taken. A write adds its frames, a read of \<open>k\<close> takes
  \<open>min(k, available)\<close>, a clear discards what is available.
\<close>

fun spec_counts :: "nat \<Rightarrow> op list \<Rightarrow> nat \<times> nat \<Rightarrow> nat \<times> nat" where
  "spec_counts n [] (a, t) = (a, t)"
| "spec_counts n (Write d # os) (a, t) = spec_counts n os (a + length (data_of d) div n, t)"
| "spec_counts n (Read k channels # os) (a, t) = spec_counts n os (a - min k a, t + min k a)"
| "spec_counts n (Clear # os) (a, t) = spec_counts n os (0, t)"


section \<open>Invariants of the queue\<close>

text \<open>
  The queue holds whole frames: its count is the number of frames that its chunks hold, and
  every chunk is a whole number of frames.
\<close>

definition whole_frames :: "AudioQueue \<Rightarrow> bool" where
  "whole_frames q =
     (0 < nChannels q \<and> samplesInQueue q = stored q
      \<and> list_all (\<lambda>c. nChannels q dvd length c) (queue q))"


section \<open>The playback state machine of the spec\<close>

text \<open>
  Section 4.3 of the spec, in its words: Uninitialized is terminal until initialised;
  Playing goes to Starved when the readable length is 0; Ready or Starved goes to Playing
  when the readable length is at least the threshold; all other combinations make no
  transition. Every transition emits one notification, a non-transition none.
\<close>

fun spec_transition :: "BackendState \<Rightarrow> rat \<Rightarrow> rat \<Rightarrow> BackendState" where
  "spec_transition UNINITIALIZED readable threshold = UNINITIALIZED"
| "spec_transition PLAYING readable threshold = (if readable = 0 then STARVED else PLAYING)"
| "spec_transition READY readable threshold = (if readable \<ge> threshold then PLAYING else READY)"
| "spec_transition STARVED readable threshold = (if readable \<ge> threshold then PLAYING else STARVED)"

definition spec_notifications :: "BackendState \<Rightarrow> BackendState \<Rightarrow> BackendState list" where
  "spec_notifications old new = (if old = new then [] else [new])"

section \<open>Example states\<close>

abbreviation (input) fifo :: "nat \<Rightarrow> f32array list \<Rightarrow> rat \<Rightarrow> AudioQueue" where
  "fifo n chunks count \<equiv>
     \<lparr>queue = chunks, nChannels = n, initialCapacity = 16384, samplesInQueue = count\<rparr>"

abbreviation (input) sp_backend ::
  "BackendState \<Rightarrow> rat \<Rightarrow> AudioQueue \<Rightarrow> BackendState list \<Rightarrow> unit ScriptProcessorBackend" where
  "sp_backend s threshold q changes \<equiv>
     \<lparr>batchSize = 256, sp_nChannels = 2, bufferThreshold = threshold, sp_bufferType = FIFO_QUEUE,
      sp_buffer = Queue q, state = s, stateChanges = changes\<rparr>"

abbreviation (input) wp_processor ::
  "BackendState \<Rightarrow> rat \<Rightarrow> AudioQueue \<Rightarrow> to_main list \<Rightarrow> unit WorkletProcessor" where
  "wp_processor s threshold q posted \<equiv>
     \<lparr>wp_bufferThreshold = Some threshold, wp_state = s, wp_bufferType = FIFO_QUEUE,
      wp_buffer = Some (Queue q), wp_port = posted\<rparr>"

abbreviation (input) no_options :: options where
  "no_options \<equiv>
     \<lparr>opt_batchSize = None, opt_bufferThreshold = None, opt_bufferLength = None,
      opt_bufferType = None, opt_resampConverterType = None, opt_inputSampleRate = None\<rparr>"

abbreviation (input) browser :: platform where
  "browser \<equiv>
     \<lparr>hasAudioWorklet = False, hasWebAssembly = True, sampleRate = 44100, SRC_SINC_FASTEST = 2\<rparr>"

section \<open>The playback state update\<close>

lemma sp_updateState_spec:
  "sp_updateState R b =
     b\<lparr>state := spec_transition (state b) (buffer_getNReadableSamples R (sp_buffer b)) (bufferThreshold b),
       stateChanges := stateChanges b @
          spec_notifications (state b)
            (spec_transition (state b) (buffer_getNReadableSamples R (sp_buffer b)) (bufferThreshold b))\<rparr>"
  by (cases "state b")
     (simp_all add: sp_updateState_def sp_onStateChange_def spec_notifications_def Let_def)

lemma wp_updateState_spec:
  "wp_buffer p = Some buf \<Longrightarrow> wp_bufferThreshold p = Some t \<Longrightarrow>
   wp_updateState R p =
     Inr (p\<lparr>wp_state := spec_transition (wp_state p) (buffer_getNReadableSamples R buf) t,
            wp_port := wp_port p @
              map StateChange (spec_notifications (wp_state p)
                (spec_transition (wp_state p) (buffer_getNReadableSamples R buf) t))\<rparr>)"
  by (cases "wp_state p")
     (simp_all add: wp_updateState_def wp_notifyStateChange_def spec_notifications_def Let_def)

text \<open>
  Claim C2. The state update of both backends computes the transition function of the spec
  from the current state, the readable length of the buffer and the threshold, and from
  nothing else: Playing goes to Starved exactly when the readable length is 0, Ready and
  Starved go to Playing exactly when the readable length is at least the threshold,
  Uninitialized stays. The update appends one state-change notification (a call of
  \<^verbatim>\<open>onStateChange\<close>, or a \<^verbatim>\<open>stateChange\<close> message of the worklet processor) when
  the state changed and none when it did not. With threshold 0 and a readable length that
  is not negative, Ready and Starved always go to Playing. The worklet processor is taken
  after \<^verbatim>\<open>_init\<close>, or Uninitialized.
\<close>

theorem updateState_refines_spec:
  "sp_updateState R b =
     b\<lparr>state := spec_transition (state b) (buffer_getNReadableSamples R (sp_buffer b)) (bufferThreshold b),
       stateChanges := stateChanges b @
          spec_notifications (state b)
            (spec_transition (state b) (buffer_getNReadableSamples R (sp_buffer b)) (bufferThreshold b))\<rparr>
   \<and> (wp_buffer p = Some buf \<and> wp_bufferThreshold p = Some t \<longrightarrow>
        wp_updateState R p =
          Inr (p\<lparr>wp_state := spec_transition (wp_state p) (buffer_getNReadableSamples R buf) t,
                 wp_port := wp_port p @
                   map StateChange (spec_notifications (wp_state p)
                     (spec_transition (wp_state p) (buffer_getNReadableSamples R buf) t))\<rparr>))
   \<and> (wp_state p = UNINITIALIZED \<longrightarrow> wp_updateState R p = Inr p)
   \<and> (0 \<le> readable \<and> (s = READY \<or> s = STARVED) \<longrightarrow> spec_transition s readable 0 = PLAYING)"
  using sp_updateState_spec[of R b] wp_updateState_spec[of p buf t R]
  by (auto simp: wp_updateState_def)

theorem updateState_refines_spec_witness:
  "\<forall>R. sp_updateState R (sp_backend READY 0 (fifo 2 [] 0) []) = sp_backend PLAYING 0 (fifo 2 [] 0) [PLAYING]
     \<and> wp_updateState R (wp_processor PLAYING 100 (fifo 2 [] 0) [])
         = Inr (wp_processor STARVED 100 (fifo 2 [] 0) [StateChange STARVED])
     \<and> wp_updateState R (wp_processor STARVED 100 (fifo 2 [[Num 1, Num 2]] 1) [])
         = Inr (wp_processor STARVED 100 (fifo 2 [[Num 1, Num 2]] 1) [])
     \<and> spec_transition STARVED 0 0 = PLAYING"
proof
  fix R :: "unit RingBuffer"
  show "sp_updateState R (sp_backend READY 0 (fifo 2 [] 0) []) = sp_backend PLAYING 0 (fifo 2 [] 0) [PLAYING]
     \<and> wp_updateState R (wp_processor PLAYING 100 (fifo 2 [] 0) [])
         = Inr (wp_processor STARVED 100 (fifo 2 [] 0) [StateChange STARVED])
     \<and> wp_updateState R (wp_processor STARVED 100 (fifo 2 [[Num 1, Num 2]] 1) [])
         = Inr (wp_processor STARVED 100 (fifo 2 [[Num 1, Num 2]] 1) [])
     \<and> spec_transition STARVED 0 0 = PLAYING"
    using updateState_refines_spec
            [of R "sp_backend READY 0 (fifo 2 [] 0) []" "wp_processor PLAYING 100 (fifo 2 [] 0) []"
                "Queue (fifo 2 [] 0)" 100 0 STARVED]
          updateState_refines_spec
            [of R "sp_backend READY 0 (fifo 2 [] 0) []"
                "wp_processor STARVED 100 (fifo 2 [[Num 1, Num 2]] 1) []"
                "Queue (fifo 2 [[Num 1, Num 2]] 1)" 100 0 STARVED]
    by (simp add: buffer_getNReadableSamples_def getNReadableSamples_def spec_notifications_def)
qed

section \<open>Pulls on an empty queue\<close>

lemma read_nothing:
  "getNReadableSamples q = 0 \<Longrightarrow>
   read n channels q =
     Inr (case channels of
            None \<Rightarrow> replicate (nChannels q) (f32_new 0)
          | Some chs \<Rightarrow> map (\<lambda>ch. f32_fill0 ch n) chs, q)"
  by (simp add: read_def)

lemma f32_fill0_exact: "length ch = n \<Longrightarrow> f32_fill0 ch n = replicate n (Num 0)"
  by (simp add: f32_fill0_def)

text \<open>
  Claim C3. A backend on a FIFO queue in state Ready with threshold 0 and no buffered
  samples: the first pull sets the state to Playing and emits exactly one Playing
  notification, and the output of that pull is all zeros, because the read of a batch from
  the empty queue zero-fills the supplied output arrays. The output arrays are as the
  platform supplies them: one per channel, a batch long. Both the script-processor backend
  (\<^verbatim>\<open>_playNext\<close>) and the worklet processor (\<^verbatim>\<open>process\<close>, batch 128).
\<close>

theorem first_pull_with_threshold_zero:
  "(sp_buffer b = Queue q \<and> getNReadableSamples q = 0 \<and> state b = READY \<and> bufferThreshold b = 0
      \<and> length outputBuffer = sp_nChannels b
      \<and> (\<forall>ch \<in> set outputBuffer. length ch = batchSize b)
    \<longrightarrow> sp_playNext R outputBuffer b
          = Inr (map (\<lambda>ch. replicate (batchSize b) (Num 0)) outputBuffer,
                 b\<lparr>state := PLAYING, stateChanges := stateChanges b @ [PLAYING]\<rparr>))
   \<and> (wp_buffer p = Some (Queue q) \<and> getNReadableSamples q = 0 \<and> wp_state p = READY
      \<and> wp_bufferThreshold p = Some 0
      \<and> (\<forall>ch \<in> set outputs. length ch = BATCH_SIZE)
    \<longrightarrow> process R outputs p
          = Inr (map (\<lambda>ch. replicate BATCH_SIZE (Num 0)) outputs,
                 p\<lparr>wp_state := PLAYING, wp_port := wp_port p @ [StateChange PLAYING]\<rparr>))"
proof (intro conjI impI)
  assume a: "sp_buffer b = Queue q \<and> getNReadableSamples q = 0 \<and> state b = READY \<and> bufferThreshold b = 0
      \<and> length outputBuffer = sp_nChannels b
      \<and> (\<forall>ch \<in> set outputBuffer. length ch = batchSize b)"
  then have "map (\<lambda>ch. f32_fill0 ch (batchSize b)) outputBuffer
             = map (\<lambda>ch. replicate (batchSize b) (Num 0)) outputBuffer"
    by (simp add: f32_fill0_exact)
  with a show "sp_playNext R outputBuffer b
          = Inr (map (\<lambda>ch. replicate (batchSize b) (Num 0)) outputBuffer,
                 b\<lparr>state := PLAYING, stateChanges := stateChanges b @ [PLAYING]\<rparr>)"
    by (simp add: sp_playNext_def sp_updateState_spec spec_notifications_def
          buffer_getNReadableSamples_def buffer_read_def read_nothing Let_def)
next
  assume a: "wp_buffer p = Some (Queue q) \<and> getNReadableSamples q = 0 \<and> wp_state p = READY
      \<and> wp_bufferThreshold p = Some 0
      \<and> (\<forall>ch \<in> set outputs. length ch = BATCH_SIZE)"
  then have z: "map (\<lambda>ch. f32_fill0 ch BATCH_SIZE) outputs
             = map (\<lambda>ch. replicate BATCH_SIZE (Num 0)) outputs"
    by (simp add: f32_fill0_exact)
  from a have "wp_updateState R p
      = Inr (p\<lparr>wp_state := PLAYING, wp_port := wp_port p @ [StateChange PLAYING]\<rparr>)"
    using wp_updateState_spec[of p "Queue q" 0 R]
    by (simp add: spec_notifications_def buffer_getNReadableSamples_def)
  with a z show "process R outputs p
          = Inr (map (\<lambda>ch. replicate BATCH_SIZE (Num 0)) outputs,
                 p\<lparr>wp_state := PLAYING, wp_port := wp_port p @ [StateChange PLAYING]\<rparr>)"
    by (simp add: process_def buffer_read_def read_nothing)
qed

theorem first_pull_with_threshold_zero_witness:
  "\<forall>R. sp_playNext R [replicate 256 NaN, replicate 256 NaN] (sp_backend READY 0 (fifo 2 [] 0) [])
        = Inr ([replicate 256 (Num 0), replicate 256 (Num 0)], sp_backend PLAYING 0 (fifo 2 [] 0) [PLAYING])
     \<and> process R [replicate 128 NaN] (wp_processor READY 0 (fifo 1 [] 0) [])
        = Inr ([replicate 128 (Num 0)], wp_processor PLAYING 0 (fifo 1 [] 0) [StateChange PLAYING])"
proof
  fix R :: "unit RingBuffer"
  show "sp_playNext R [replicate 256 NaN, replicate 256 NaN] (sp_backend READY 0 (fifo 2 [] 0) [])
        = Inr ([replicate 256 (Num 0), replicate 256 (Num 0)], sp_backend PLAYING 0 (fifo 2 [] 0) [PLAYING])
     \<and> process R [replicate 128 NaN] (wp_processor READY 0 (fifo 1 [] 0) [])
        = Inr ([replicate 128 (Num 0)], wp_processor PLAYING 0 (fifo 1 [] 0) [StateChange PLAYING])"
    using first_pull_with_threshold_zero
            [where b = "sp_backend READY 0 (fifo 2 [] 0) []" and q = "fifo 2 [] 0"
               and outputBuffer = "[replicate 256 NaN, replicate 256 NaN]" and R = R]
          first_pull_with_threshold_zero
            [where p = "wp_processor READY 0 (fifo 1 [] 0) []" and q = "fifo 1 [] 0"
               and outputs = "[replicate 128 NaN]" and R = R]
    by (simp add: getNReadableSamples_def BATCH_SIZE_def)
qed

text \<open>
  Claim C8. After \<^verbatim>\<open>clearBuffer\<close> on a script-processor backend with a FIFO queue the
  current fill is 0 and the queue holds no chunk. If the state was Playing at the clear, the
  next pull sets the state to Starved, emits exactly one Starved notification and outputs
  silence (the zero fill of \<open>writeSilence\<close>).
\<close>

theorem clear_then_pull_starves:
  "sp_buffer b = Queue q \<Longrightarrow>
     sp_getCurrentBufferFill R (sp_clearBuffer R b) = 0
   \<and> sp_buffer (sp_clearBuffer R b) = Queue (clear q)
   \<and> queue (clear q) = [] \<and> getNReadableSamples (clear q) = 0
   \<and> (state b = PLAYING \<and> length outputBuffer = sp_nChannels b
      \<longrightarrow> sp_playNext R outputBuffer (sp_clearBuffer R b)
            = Inr (map (\<lambda>ch. replicate (length ch) (Num 0)) outputBuffer,
                   (sp_clearBuffer R b)\<lparr>state := STARVED,
                                          stateChanges := stateChanges b @ [STARVED]\<rparr>))"
  by (simp add: sp_getCurrentBufferFill_def sp_clearBuffer_def buffer_clear_def clear_def
        buffer_getNReadableSamples_def getNReadableSamples_def sp_playNext_def
        sp_updateState_spec spec_notifications_def writeSilence_def f32_fill0_all_def Let_def)

theorem clear_then_pull_starves_witness:
  "\<forall>R. sp_getCurrentBufferFill R (sp_clearBuffer R (sp_backend PLAYING 1 (fifo 2 [[Num 1, Num 2]] 1) [PLAYING])) = 0
     \<and> sp_playNext R [replicate 256 NaN, replicate 256 NaN]
          (sp_clearBuffer R (sp_backend PLAYING 1 (fifo 2 [[Num 1, Num 2]] 1) [PLAYING]))
        = Inr ([replicate 256 (Num 0), replicate 256 (Num 0)],
               sp_backend STARVED 1 (fifo 2 [] 0) [PLAYING, STARVED])"
proof
  fix R :: "unit RingBuffer"
  show "sp_getCurrentBufferFill R (sp_clearBuffer R (sp_backend PLAYING 1 (fifo 2 [[Num 1, Num 2]] 1) [PLAYING])) = 0
     \<and> sp_playNext R [replicate 256 NaN, replicate 256 NaN]
          (sp_clearBuffer R (sp_backend PLAYING 1 (fifo 2 [[Num 1, Num 2]] 1) [PLAYING]))
        = Inr ([replicate 256 (Num 0), replicate 256 (Num 0)],
               sp_backend STARVED 1 (fifo 2 [] 0) [PLAYING, STARVED])"
    using clear_then_pull_starves
            [where b = "sp_backend PLAYING 1 (fifo 2 [[Num 1, Num 2]] 1) [PLAYING]"
               and q = "fifo 2 [[Num 1, Num 2]] 1" and R = R
               and outputBuffer = "[replicate 256 NaN, replicate 256 NaN]"]
    by (simp add: sp_clearBuffer_def buffer_clear_def clear_def)
qed

section \<open>Buffer health\<close>

lemma fn_bufferLength_after_fill [simp]:
  "fn_bufferLength R (snd (fn_getCurrentBufferFill R node)) = fn_bufferLength R node"
  by (cases node)
     (simp_all add: fn_getCurrentBufferFill_def fn_bufferLength_def aw_getCurrentBufferFill_def)

lemma getBufferHealth_eq:
  "fst (getBufferHealth R node) =
     js_min (Num 1) (js_max (Num 0)
       (js_div (fst (fn_getCurrentBufferFill R node)) (fn_bufferLength R node)))"
proof (cases "fn_getCurrentBufferFill R node")
  case (Pair fill node')
  with fn_bufferLength_after_fill[of R node] show ?thesis
    by (simp add: getBufferHealth_def Let_def)
qed

text \<open>
  Claim C5. For every current fill and every capacity (the backend's \<^verbatim>\<open>bufferLength\<close>)
  greater than 0, \<^verbatim>\<open>getBufferHealth\<close> returns the fill ratio clamped to [0,1]; it is 1
  when the fill exceeds the capacity.
\<close>

theorem getBufferHealth_clamped:
  "0 < fn_bufferLength R node \<Longrightarrow>
     fst (getBufferHealth R node)
       = Num (max 0 (min 1 (fst (fn_getCurrentBufferFill R node) / fn_bufferLength R node)))
   \<and> 0 \<le> max 0 (min 1 (fst (fn_getCurrentBufferFill R node) / fn_bufferLength R node))
   \<and> max 0 (min 1 (fst (fn_getCurrentBufferFill R node) / fn_bufferLength R node)) \<le> 1
   \<and> (fn_bufferLength R node < fst (fn_getCurrentBufferFill R node)
        \<longrightarrow> fst (getBufferHealth R node) = Num 1)"
  by (auto simp: getBufferHealth_eq js_div_def min_def max_def)

theorem getBufferHealth_clamped_witness:
  "\<forall>R :: unit RingBuffer. (0::rat) < 16384
     \<and> fst (getBufferHealth R (AudioWorklet
              ((AudioWorkletBackend_new 2 16384 RING_BUFFER)\<lparr>aw_currentBufferFill := 20000\<rparr>)))
         = Num 1
     \<and> fst (getBufferHealth R (AudioWorklet
              ((AudioWorkletBackend_new 2 16384 RING_BUFFER)\<lparr>aw_currentBufferFill := 4096\<rparr>)))
         = Num (1 / 4)"
proof
  fix R :: "unit RingBuffer"
  show "(0::rat) < 16384
     \<and> fst (getBufferHealth R (AudioWorklet
              ((AudioWorkletBackend_new 2 16384 RING_BUFFER)\<lparr>aw_currentBufferFill := 20000\<rparr>)))
         = Num 1
     \<and> fst (getBufferHealth R (AudioWorklet
              ((AudioWorkletBackend_new 2 16384 RING_BUFFER)\<lparr>aw_currentBufferFill := 4096\<rparr>)))
         = Num (1 / 4)"
    using getBufferHealth_clamped
        [of R "AudioWorklet ((AudioWorkletBackend_new 2 16384 RING_BUFFER)\<lparr>aw_currentBufferFill := 20000\<rparr>)"]
      getBufferHealth_clamped
        [of R "AudioWorklet ((AudioWorkletBackend_new 2 16384 RING_BUFFER)\<lparr>aw_currentBufferFill := 4096\<rparr>)"]
    by (simp add: fn_bufferLength_def fn_getCurrentBufferFill_def aw_getCurrentBufferFill_def
          AudioWorkletBackend_new_def)
qed

lemma fifo_backend_new:
  assumes "ScriptProcessorBackend_new R n bs len thr FIFO_QUEUE = Inr b"
  shows "\<exists>q. sp_buffer b = Queue q \<and> getNReadableSamples q = 0"
  using assms
  by (auto simp: ScriptProcessorBackend_new_def buffer_new_def AudioQueue_new_def
        getNReadableSamples_def split: sum.splits if_splits)

text \<open>
  Claim C10. On a script-processor backend with a FIFO queue the \<^verbatim>\<open>bufferLength\<close> that
  \<^verbatim>\<open>FeederNode\<close> divides by is the queue's readable sample count, which is also the
  current fill: \<^verbatim>\<open>getBufferHealth\<close> is 1 when the count is not 0 and NaN (0/0) when it
  is 0. A backend that was just constructed with the FIFO queue holds a queue, and its
  health is NaN.
\<close>

theorem fifo_health_is_one_or_NaN:
  "(sp_buffer b = Queue q \<longrightarrow>
      fn_bufferLength R (ScriptProcessor b) = getNReadableSamples q
    \<and> fst (fn_getCurrentBufferFill R (ScriptProcessor b)) = getNReadableSamples q
    \<and> fst (getBufferHealth R (ScriptProcessor b))
        = (if getNReadableSamples q = 0 then NaN else Num 1))
   \<and> (ScriptProcessorBackend_new R n bs len thr FIFO_QUEUE = Inr b' \<longrightarrow>
        (\<exists>q'. sp_buffer b' = Queue q')
      \<and> fst (getBufferHealth R (ScriptProcessor b')) = NaN)"
proof (intro conjI impI)
  assume "ScriptProcessorBackend_new R n bs len thr FIFO_QUEUE = Inr b'"
  from fifo_backend_new[OF this] obtain q' where
    q': "sp_buffer b' = Queue q'" "getNReadableSamples q' = 0" by blast
  then show "\<exists>q'. sp_buffer b' = Queue q'" by blast
  from q' show "fst (getBufferHealth R (ScriptProcessor b')) = NaN"
    by (simp add: getBufferHealth_eq fn_bufferLength_def fn_getCurrentBufferFill_def
        sp_bufferLength_def sp_getCurrentBufferFill_def buffer_bufferLength_def
        buffer_getNReadableSamples_def bufferLength_def getNReadableSamples_def js_div_def)
qed (simp_all add: getBufferHealth_eq fn_bufferLength_def fn_getCurrentBufferFill_def
        sp_bufferLength_def sp_getCurrentBufferFill_def buffer_bufferLength_def
        buffer_getNReadableSamples_def bufferLength_def getNReadableSamples_def js_div_def)

theorem fifo_health_is_one_or_NaN_witness:
  "\<forall>R :: unit RingBuffer.
     ScriptProcessorBackend_new R 2 256 16384 0 FIFO_QUEUE = Inr (sp_backend READY 0 (fifo 2 [] 0) [])
     \<and> fst (getBufferHealth R (ScriptProcessor (sp_backend READY 0 (fifo 2 [] 0) []))) = NaN
     \<and> sp_feed R (TypedArray [Num 1, Num 2]) (sp_backend READY 0 (fifo 2 [] 0) [])
         = Inr (sp_backend READY 0 (fifo 2 [[Num 1, Num 2]] 1) [])
     \<and> fst (getBufferHealth R (ScriptProcessor (sp_backend READY 0 (fifo 2 [[Num 1, Num 2]] 1) []))) = Num 1"
proof
  fix R :: "unit RingBuffer"
  have new: "ScriptProcessorBackend_new R 2 256 16384 0 FIFO_QUEUE
             = Inr (sp_backend READY 0 (fifo 2 [] 0) [])"
    by (simp add: ScriptProcessorBackend_new_def buffer_new_def AudioQueue_new_def)
  have feed: "sp_feed R (TypedArray [Num 1, Num 2]) (sp_backend READY 0 (fifo 2 [] 0) [])
         = Inr (sp_backend READY 0 (fifo 2 [[Num 1, Num 2]] 1) [])"
    by (simp add: sp_feed_def buffer_write_def write_q_def)
  from new feed
    fifo_health_is_one_or_NaN[where b = "sp_backend READY 0 (fifo 2 [[Num 1, Num 2]] 1) []"
       and q = "fifo 2 [[Num 1, Num 2]] 1" and R = R and b' = "sp_backend READY 0 (fifo 2 [] 0) []"
       and n = 2 and bs = 256 and len = 16384 and thr = 0]
  show "ScriptProcessorBackend_new R 2 256 16384 0 FIFO_QUEUE = Inr (sp_backend READY 0 (fifo 2 [] 0) [])
     \<and> fst (getBufferHealth R (ScriptProcessor (sp_backend READY 0 (fifo 2 [] 0) []))) = NaN
     \<and> sp_feed R (TypedArray [Num 1, Num 2]) (sp_backend READY 0 (fifo 2 [] 0) [])
         = Inr (sp_backend READY 0 (fifo 2 [[Num 1, Num 2]] 1) [])
     \<and> fst (getBufferHealth R (ScriptProcessor (sp_backend READY 0 (fifo 2 [[Num 1, Num 2]] 1) []))) = Num 1"
    by (simp add: getNReadableSamples_def)
qed

section \<open>Threshold reconfiguration\<close>

text \<open>
  Claim C7. \<^verbatim>\<open>setBufferThreshold(t)\<close> of either backend throws exactly when
  \<open>t < 0\<close> or \<open>t\<close> is greater than the backend's \<^verbatim>\<open>bufferLength\<close>. When it throws,
  the backend is as before the call (threshold, state and all). When it does not, the
  script-processor backend stores the threshold, and the worklet backend posts it to the
  worklet processor, whose message handler stores it.
\<close>

theorem setBufferThreshold_validates:
  "((fst (sp_setBufferThreshold R t b) \<noteq> None) = (t < 0 \<or> sp_bufferLength R b < t))
   \<and> (fst (sp_setBufferThreshold R t b) \<noteq> None \<longrightarrow> snd (sp_setBufferThreshold R t b) = b)
   \<and> (fst (sp_setBufferThreshold R t b) = None
        \<longrightarrow> snd (sp_setBufferThreshold R t b) = b\<lparr>bufferThreshold := t\<rparr>)
   \<and> ((fst (aw_setBufferThreshold t a) \<noteq> None) = (t < 0 \<or> aw_bufferLength a < t))
   \<and> (fst (aw_setBufferThreshold t a) \<noteq> None \<longrightarrow> snd (aw_setBufferThreshold t a) = a)
   \<and> (fst (aw_setBufferThreshold t a) = None
        \<longrightarrow> snd (aw_setBufferThreshold t a) = a\<lparr>aw_port := aw_port a @ [SetBufferThreshold t]\<rparr>)
   \<and> wp_onMessage R (SetBufferThreshold t) p = Inr (p\<lparr>wp_bufferThreshold := Some t\<rparr>)"
  by (simp add: sp_setBufferThreshold_def aw_setBufferThreshold_def wp_onMessage_def)

theorem setBufferThreshold_validates_witness:
  "\<forall>R. sp_setBufferThreshold R 2 (sp_backend READY 0 (fifo 2 [[Num 1, Num 2]] 1) [])
        = (Some (Error ''bufferThreshold cannot be greater than bufferLength''),
           sp_backend READY 0 (fifo 2 [[Num 1, Num 2]] 1) [])
     \<and> sp_setBufferThreshold R 1 (sp_backend READY 0 (fifo 2 [[Num 1, Num 2]] 1) [])
        = (None, sp_backend READY 1 (fifo 2 [[Num 1, Num 2]] 1) [])
     \<and> fst (aw_setBufferThreshold (- 1) (AudioWorkletBackend_new 2 16384 RING_BUFFER))
        = Some (Error ''bufferThreshold cannot be less than 0'')
     \<and> snd (aw_setBufferThreshold (- 1) (AudioWorkletBackend_new 2 16384 RING_BUFFER))
        = AudioWorkletBackend_new 2 16384 RING_BUFFER
     \<and> aw_port (snd (aw_setBufferThreshold 512 (AudioWorkletBackend_new 2 16384 RING_BUFFER)))
        = [SetBufferThreshold 512]"
proof
  fix R :: "unit RingBuffer"
  have sp: "sp_bufferLength R (sp_backend READY 0 (fifo 2 [[Num 1, Num 2]] 1) []) = 1"
    by (simp add: sp_bufferLength_def buffer_bufferLength_def bufferLength_def)
  have aw: "aw_bufferLength (AudioWorkletBackend_new 2 16384 RING_BUFFER) = 16384"
           "aw_port (AudioWorkletBackend_new 2 16384 RING_BUFFER) = []"
    by (simp_all add: AudioWorkletBackend_new_def)
  show "sp_setBufferThreshold R 2 (sp_backend READY 0 (fifo 2 [[Num 1, Num 2]] 1) [])
        = (Some (Error ''bufferThreshold cannot be greater than bufferLength''),
           sp_backend READY 0 (fifo 2 [[Num 1, Num 2]] 1) [])
     \<and> sp_setBufferThreshold R 1 (sp_backend READY 0 (fifo 2 [[Num 1, Num 2]] 1) [])
        = (None, sp_backend READY 1 (fifo 2 [[Num 1, Num 2]] 1) [])
     \<and> fst (aw_setBufferThreshold (- 1) (AudioWorkletBackend_new 2 16384 RING_BUFFER))
        = Some (Error ''bufferThreshold cannot be less than 0'')
     \<and> snd (aw_setBufferThreshold (- 1) (AudioWorkletBackend_new 2 16384 RING_BUFFER))
        = AudioWorkletBackend_new 2 16384 RING_BUFFER
     \<and> aw_port (snd (aw_setBufferThreshold 512 (AudioWorkletBackend_new 2 16384 RING_BUFFER)))
        = [SetBufferThreshold 512]"
    using setBufferThreshold_validates
            [of R 2 "sp_backend READY 0 (fifo 2 [[Num 1, Num 2]] 1) []" 
                "AudioWorkletBackend_new 2 16384 RING_BUFFER"]
          setBufferThreshold_validates
            [of R 1 "sp_backend READY 0 (fifo 2 [[Num 1, Num 2]] 1) []" 
                "AudioWorkletBackend_new 2 16384 RING_BUFFER"]
          setBufferThreshold_validates
            [of R "- 1" "sp_backend READY 0 (fifo 2 [[Num 1, Num 2]] 1) []" 
                "AudioWorkletBackend_new 2 16384 RING_BUFFER"]
          setBufferThreshold_validates
            [of R 512 "sp_backend READY 0 (fifo 2 [[Num 1, Num 2]] 1) []" 
                "AudioWorkletBackend_new 2 16384 RING_BUFFER"]
    by (simp add: sp aw sp_setBufferThreshold_def aw_setBufferThreshold_def)
qed

section \<open>Validation of the configuration\<close>

lemma validate_iff:
  "(validate n bs thr len conv rate bt = Inr ()) =
     ((\<exists>c. n = Some c \<and> 1 \<le> c \<and> c \<le> 2)
      \<and> bs \<in> set VALID_BATCH_SIZES
      \<and> 16384 \<le> len
      \<and> 0 \<le> thr \<and> thr \<le> len
      \<and> 0 \<le> conv \<and> conv \<le> 4
      \<and> 1 \<le> rate \<and> rate \<le> 192000
      \<and> (bt = RING_BUFFER \<or> bt = FIFO_QUEUE))"
  by (cases n) (auto simp: validate_def)

lemma createNode_fst:
   "((fst (createNode w n opts) = None) =
        (validate n (or_num (opt_batchSize opts) (if hasAudioWorklet w then 128 else 512))
           (or_num (opt_bufferThreshold opts) 4096) (or_num (opt_bufferLength opts) 192000)
           (case opt_resampConverterType opts of None \<Rightarrow> SRC_SINC_FASTEST w | Some c \<Rightarrow> c)
           (or_num (opt_inputSampleRate opts) (sampleRate w))
           (or_str (opt_bufferType opts) RING_BUFFER) = Inr ()))
   \<and> (snd (createNode w n opts) =
        (if fst (createNode w n opts) = None then [createBackend w, createResampler w] else []))"
  by (simp add: createNode_def Let_def split: sum.splits)

text \<open>
  Claim C6, as stated, fails in three places. An input sample rate of 1/2 lies in
  (0, 192000] and is rejected; a buffer type that is neither of the two known ones is
  rejected although every listed range holds; and a buffer length option of 0, which is
  outside its range, is not rejected, because \<^verbatim>\<open>createNode\<close> replaces a zero option by
  its default before it validates.
\<close>

theorem validate_range_counterexample:
  "spec_in_range (Some 2) 512 4096 192000 2 (1 / 2)
   \<and> validate (Some 2) 512 4096 192000 2 (1 / 2) RING_BUFFER = Inl (Error ''invalid inputSampleRate'')
   \<and> spec_in_range (Some 2) 512 4096 192000 2 44100
   \<and> validate (Some 2) 512 4096 192000 2 44100 ''linked_list'' = Inl (Error ''invalid bufferType'')
   \<and> \<not> spec_in_range (Some 2) 512 4096 0 2 44100
   \<and> createNode browser (Some 2) (no_options\<lparr>opt_bufferLength := Some 0\<rparr>)
       = (None, [ScriptProcessorBackendResource, WorkerResamplerResource])"
  by (simp add: spec_in_range_def validate_def VALID_BATCH_SIZES_def RING_BUFFER_def FIFO_QUEUE_def
        createNode_def or_num_def or_str_def createBackend_def createResampler_def)

text \<open>
  Claim C6, amended. \<^verbatim>\<open>validate\<close> accepts exactly the configurations with a defined
  channel count in [1,2], a batch size in the enumerated set, a buffer length of at least
  16384, a threshold in [0, buffer length], a converter selector in [0,4], an input sample
  rate in [1, 192000] and a buffer type that is the ring buffer or the FIFO queue.
  \<^verbatim>\<open>createNode\<close> validates the configuration in which every absent option, and every
  zero option other than the converter selector, is replaced by its default; it creates
  nothing when the validation fails, and the backend before the resampler when it passes.
\<close>

theorem validate_accepts_exactly:
  "(validate n bs thr len conv rate bt = Inr ()) =
     ((\<exists>c. n = Some c \<and> 1 \<le> c \<and> c \<le> 2)
      \<and> bs \<in> set VALID_BATCH_SIZES
      \<and> 16384 \<le> len
      \<and> 0 \<le> thr \<and> thr \<le> len
      \<and> 0 \<le> conv \<and> conv \<le> 4
      \<and> 1 \<le> rate \<and> rate \<le> 192000
      \<and> (bt = RING_BUFFER \<or> bt = FIFO_QUEUE))
   \<and> ((fst (createNode w n opts) = None) =
        (validate n (or_num (opt_batchSize opts) (if hasAudioWorklet w then 128 else 512))
           (or_num (opt_bufferThreshold opts) 4096) (or_num (opt_bufferLength opts) 192000)
           (case opt_resampConverterType opts of None \<Rightarrow> SRC_SINC_FASTEST w | Some c \<Rightarrow> c)
           (or_num (opt_inputSampleRate opts) (sampleRate w))
           (or_str (opt_bufferType opts) RING_BUFFER) = Inr ()))
   \<and> (snd (createNode w n opts) =
        (if fst (createNode w n opts) = None then [createBackend w, createResampler w] else []))"
  using validate_iff[of n bs thr len conv rate bt] createNode_fst[of w n opts] by blast

theorem validate_accepts_exactly_witness:
  "validate (Some 2) 512 4096 192000 2 44100 RING_BUFFER = Inr ()
   \<and> createNode browser (Some 2) no_options
       = (None, [ScriptProcessorBackendResource, WorkerResamplerResource])
   \<and> createNode browser (Some 2) (no_options\<lparr>opt_bufferLength := Some 1024\<rparr>)
       = (Some (Error ''buffer length must be greater than 16384''), [])"
proof -
  have v: "validate (Some 2) 512 4096 192000 2 44100 RING_BUFFER = Inr ()"
    using validate_accepts_exactly [of "Some 2" 512 4096 192000 2 44100 RING_BUFFER browser no_options]
    by (simp add: VALID_BATCH_SIZES_def)
  have w: "validate (Some 2) 512 4096 1024 2 44100 RING_BUFFER
             = Inl (Error ''buffer length must be greater than 16384'')"
    by (simp add: validate_def VALID_BATCH_SIZES_def)
  show ?thesis
    using v w
    by (simp add: createNode_def or_num_def or_str_def createBackend_def createResampler_def)
qed

section \<open>Reads of the queue\<close>

text \<open>
  Claim C4, at the failing input. One sample is written to a one-channel queue and two are
  asked for without output arrays: the returned array has length 2, the sample and a zero,
  where the claim says length 1. With nothing to read the returned array is empty, and a
  supplied array of length 2 comes back zero-filled behind the sample, as the claim says.
\<close>

theorem read_allocates_requested_length:
  "write_q (TypedArray [Num 5]) (fifo 1 [] 0) = Inr ((False, 1), fifo 1 [[Num 5]] 1)
   \<and> read 2 None (fifo 1 [[Num 5]] 1) = Inr ([[Num 5, Num 0]], fifo 1 [] 0)
   \<and> read 2 None (fifo 1 [] 0) = Inr ([[]], fifo 1 [] 0)
   \<and> read 2 (Some [[NaN, NaN]]) (fifo 1 [[Num 5]] 1) = Inr ([[Num 5, Num 0]], fifo 1 [] 0)"
  by (simp add: write_q_def read_def getNReadableSamples_def f32_new_def f32_fill0_all_def
        copy_chunk_def copy_frame_def f32_set_def f32_get_def eval_nat_numeral)

section \<open>The sample count of the queue\<close>

lemma length_copy_frame [simp]: "length (copy_frame n chunk sr i chs) = length chs"
proof -
  have "length (fold (\<lambda>j cs. cs[j := f32_set (cs ! j) (sr + of_nat i) (f32_get chunk (i * n + j))]) js chs)
        = length chs" for js
    by (induction js arbitrary: chs) simp_all
  then show ?thesis by (simp add: copy_frame_def)
qed

lemma length_fold_copy_frame [simp]:
  "length (fold (copy_frame n chunk sr) is chs) = length chs"
  by (induction "is" arbitrary: chs) simp_all

lemma copy_chunk_ok:
  "n \<le> length chs \<Longrightarrow> \<exists>chs'. copy_chunk n chunk sr k chs = Inr chs' \<and> length chs' = length chs"
  by (simp add: copy_chunk_def)

lemma read_loop_counts:
  assumes "0 < n" "n \<le> length chs"
    and "(readable - sr) * of_nat n = of_nat m" "m \<le> length (concat qu)"
  shows "\<exists>qu' chs'. read_loop n readable qu chs sr = Inr (qu', chs', readable)
           \<and> length chs' = length chs \<and> concat qu' = drop m (concat qu)"
  using assms
proof (induction qu arbitrary: chs sr m)
  case Nil
  then show ?case by simp
next
  case (Cons chunk rest)
  let ?L = "length chunk"
  have n0: "(of_nat n :: rat) > 0" using Cons.prems(1) by simp
  have diff: "readable - sr = of_nat m / of_nat n"
    using Cons.prems(3) n0 by (simp add: field_simps)
  show ?case
  proof (cases "sr < readable")
    case False
    then have "(readable - sr) * of_nat n \<le> 0"
      using n0 by (simp add: mult_le_0_iff)
    with Cons.prems(3) have m0: "m = 0" by simp
    with Cons.prems(3) n0 have "sr = readable" by simp
    with m0 show ?thesis by simp
  next
    case True
    obtain chs1 where c1: "copy_chunk n chunk sr (min (of_nat ?L / of_nat n) (readable - sr)) chs = Inr chs1"
      and l1: "length chs1 = length chs"
      using copy_chunk_ok[OF Cons.prems(2)] by blast
    show ?thesis
    proof (cases "?L \<le> m")
      case whole: True
      then have mn: "min (of_nat ?L / of_nat n) (readable - sr) = (of_nat ?L / of_nat n :: rat)"
        using n0 by (simp add: diff min_def divide_le_cancel)
      have rest: "(readable - (sr + of_nat ?L / of_nat n)) * of_nat n = of_nat (m - ?L)"
        using whole n0 diff by (simp add: field_simps of_nat_diff)
      have le: "m - ?L \<le> length (concat rest)" using Cons.prems(4) by simp
      from Cons.IH[OF Cons.prems(1) _ rest le, of chs1] Cons.prems(2) l1
      obtain qu' chs' where
        r: "read_loop n readable rest chs1 (sr + of_nat ?L / of_nat n) = Inr (qu', chs', readable)"
        and l: "length chs' = length chs1" and c: "concat qu' = drop (m - ?L) (concat rest)"
        by auto
      show ?thesis using True c1 mn r l l1 c whole by simp
    next
      case part: False
      then have lt: "m < ?L" by simp
      then have mn: "min (of_nat ?L / of_nat n) (readable - sr) = readable - sr"
        and ne: "readable - sr \<noteq> (of_nat ?L / of_nat n :: rat)"
        using n0 by (simp_all add: diff min_def divide_le_cancel divide_cancel_right)
      have fl: "nat \<lfloor>(readable - sr) * of_nat n\<rfloor> = m"
        using Cons.prems(3) by simp
      show ?thesis using True c1 mn ne fl l1 lt by simp
    qed
  qed
qed

lemma read_loop_too_few_arrays:
  assumes "0 < n" "length chs < n"
    and "(readable - sr) * of_nat n = of_nat m" "0 < m" "m \<le> length (concat qu)"
  shows "read_loop n readable qu chs sr = Inl TypeError"
  using assms
proof (induction qu arbitrary: sr)
  case Nil
  then show ?case by simp
next
  case (Cons chunk rest)
  have n0: "(of_nat n :: rat) > 0" using Cons.prems(1) by simp
  have diff: "readable - sr = of_nat m / of_nat n"
    using Cons.prems(3) n0 by (simp add: field_simps)
  then have lt: "sr < readable" using Cons.prems(4) n0
    by (metis diff_gt_0_iff_gt divide_pos_pos of_nat_0_less_iff)
  show ?case
  proof (cases "length chunk = 0")
    case True
    then have "m \<le> length (concat rest)" using Cons.prems(5) by simp
    from Cons.IH[OF Cons.prems(1,2,3,4) this] True lt diff Cons.prems(4) n0
    show ?thesis by (simp add: copy_chunk_def min_def)
  next
    case False
    then have "0 < min (of_nat (length chunk) / of_nat n) (readable - sr)"
      using n0 Cons.prems(4) by (simp add: diff)
    then show ?thesis using lt Cons.prems(2) by (simp add: copy_chunk_def)
  qed
qed

lemma stored_nonneg: "0 \<le> stored q"
  by (simp add: stored_def)

lemma min_count_times:
  assumes "0 < n"
  shows "min (of_nat k) (of_nat l / of_nat n) * (of_nat n :: rat) = of_nat (min (k * n) l)"
proof -
  have n0: "(of_nat n :: rat) > 0" using assms by simp
  show ?thesis
  proof (cases "k * n \<le> l")
    case True
    then have "(of_nat (k * n) :: rat) \<le> of_nat l" by (simp only: of_nat_le_iff)
    then have "(of_nat k :: rat) \<le> of_nat l / of_nat n"
      using n0 by (simp add: pos_le_divide_eq)
    with True show ?thesis by (simp add: min_def)
  next
    case False
    then have "(of_nat l :: rat) < of_nat (k * n)" by (simp only: of_nat_less_iff not_le)
    then have "(of_nat l / of_nat n :: rat) < of_nat k"
      using n0 by (simp add: pos_divide_less_eq)
    with False n0 show ?thesis by (simp add: min_def)
  qed
qed

text \<open>What a read that returns does, on a queue whose count is its content.\<close>

lemma read_returns:
  assumes n: "0 < nChannels q" and cnt: "samplesInQueue q = stored q"
    and r: "read k channels q = Inr (outs, q')"
  shows "nChannels q' = nChannels q"
    and "concat (queue q') = drop (min (k * nChannels q) (length (concat (queue q)))) (concat (queue q))"
    and "samplesInQueue q' = samplesInQueue q - min (of_nat k) (samplesInQueue q)"
    and "samplesInQueue q' = stored q'"
proof -
  let ?n = "nChannels q" and ?L = "length (concat (queue q))"
  let ?rd = "min (of_nat k) (samplesInQueue q)"
  let ?m = "min (k * ?n) ?L"
  have n0: "(of_nat ?n :: rat) > 0" using n by simp
  have m: "(?rd - 0) * of_nat ?n = of_nat ?m"
    using min_count_times[OF n, of k ?L] by (simp add: cnt stored_def)
  have goal: "nChannels q' = nChannels q
      \<and> concat (queue q') = drop ?m (concat (queue q))
      \<and> samplesInQueue q' = samplesInQueue q - ?rd"
  proof (cases "?rd = 0")
    case True
    with m have "?m = 0" by simp
    with True r show ?thesis by (simp add: read_def getNReadableSamples_def)
  next
    case False
    let ?chs = "case channels of None \<Rightarrow> replicate ?n (f32_new k) | Some chs \<Rightarrow> map f32_fill0_all chs"
    have loop: "read_loop ?n ?rd (queue q) ?chs 0 = Inr (queue q', outs, samplesInQueue q - samplesInQueue q')"
      using r False by (auto simp: read_def getNReadableSamples_def Let_def split: sum.splits)
    have mpos: "0 < ?m" using m False n0 by (cases "?m = 0") auto
    have "\<not> length ?chs < ?n"
      using read_loop_too_few_arrays[OF n _ m mpos, of ?chs] loop by auto
    then have "?n \<le> length ?chs" by simp
    from read_loop_counts[OF n this m, of "queue q"] loop
    have "concat (queue q') = drop ?m (concat (queue q))
      \<and> samplesInQueue q - samplesInQueue q' = ?rd" by auto
    moreover have "nChannels q' = nChannels q"
      using r False by (auto simp: read_def getNReadableSamples_def Let_def split: sum.splits)
    ultimately show ?thesis by simp
  qed
  then show "nChannels q' = nChannels q"
    and c: "concat (queue q') = drop ?m (concat (queue q))"
    and s: "samplesInQueue q' = samplesInQueue q - ?rd" by simp_all
  have "stored q' = of_nat (?L - ?m) / of_nat ?n"
    using goal by (simp add: stored_def)
  also have "\<dots> = (of_nat ?L - of_nat ?m) / of_nat ?n"
    by (simp add: of_nat_diff)
  also have "\<dots> = stored q - ?rd"
    using m n0 by (simp add: stored_def field_simps)
  finally show "samplesInQueue q' = stored q'" using s cnt by simp
qed

lemma write_q_returns:
  assumes "write_q d q = Inr (res, q')"
  shows "res = (False, samplesInQueue q')"
    and "nChannels q' = nChannels q"
    and "queue q' = queue q @ [data_of d]"
    and "samplesInQueue q' = samplesInQueue q + of_nat (length (data_of d)) / of_nat (nChannels q)"
  using assms by (auto simp: write_q_def data_of_def Let_def split: js_data.splits)

lemma write_q_stored:
  assumes "write_q d q = Inr (res, q')"
  shows "stored q' = stored q + of_nat (length (data_of d)) / of_nat (nChannels q)"
  using write_q_returns(2,3)[OF assms] by (simp add: stored_def add_divide_distrib)

lemma run_op_invariant:
  assumes n: "0 < nChannels q" and cnt: "samplesInQueue q = stored q"
    and r: "run_op x (h, q) = Inr (h', q')"
  shows "nChannels q' = nChannels q \<and> samplesInQueue q' = stored q'
     \<and> stored q' - stored q
         = (of_nat (length (written h')) - of_nat (length (written h))) / of_nat (nChannels q)
           - (consumed h' - consumed h) - (discarded h' - discarded h)
     \<and> consumed h \<le> consumed h' \<and> discarded h \<le> discarded h'
     \<and> (x \<noteq> Clear \<longrightarrow> discarded h' = discarded h)"
proof (cases x)
  case (Write d)
  with r obtain res where w: "write_q d q = Inr (res, q')" and h': "h' = h\<lparr>written := written h @ data_of d\<rparr>"
    by (auto simp: run_op_def split: sum.splits)
  from write_q_returns[OF w] write_q_stored[OF w] cnt h' Write show ?thesis by simp
next
  case (Read k channels)
  with r obtain outs where rd: "read k channels q = Inr (outs, q')"
    and c: "consumed h' = consumed h + (stored q - stored q')"
    and w: "written h' = written h" and d: "discarded h' = discarded h"
    by (auto simp: run_op_def split: sum.splits)
  note rr = read_returns[OF n cnt rd]
  have "0 \<le> min (of_nat k) (samplesInQueue q)"
    using stored_nonneg[of q] cnt by simp
  with rr cnt c w d Read show ?thesis by simp
next
  case Clear
  with r have "q' = clear q" "h' = h\<lparr>discarded := discarded h + (stored q - stored (clear q))\<rparr>"
    by (auto simp: run_op_def)
  then show ?thesis using stored_nonneg[of q] Clear by (simp add: clear_def stored_def)
qed

lemma run_invariant:
  assumes "0 < nChannels q" "samplesInQueue q = stored q" "run ops (h, q) = Inr (h', q')"
  shows "nChannels q' = nChannels q \<and> samplesInQueue q' = stored q'
     \<and> stored q' - stored q
         = (of_nat (length (written h')) - of_nat (length (written h))) / of_nat (nChannels q)
           - (consumed h' - consumed h) - (discarded h' - discarded h)
     \<and> consumed h \<le> consumed h' \<and> discarded h \<le> discarded h'
     \<and> (Clear \<notin> set ops \<longrightarrow> discarded h' = discarded h)"
  using assms
proof (induction ops arbitrary: h q)
  case Nil
  then show ?case by simp
next
  case (Cons x xs)
  from Cons.prems(3) obtain h1 q1 where
    s1: "run_op x (h, q) = Inr (h1, q1)" and s2: "run xs (h1, q1) = Inr (h', q')"
    by (auto split: sum.splits)
  note a = run_op_invariant[OF Cons.prems(1,2) s1]
  then have n1: "0 < nChannels q1" and c1: "samplesInQueue q1 = stored q1"
    using Cons.prems(1) by simp_all
  note b = Cons.IH[OF n1 c1 s2]
  have "stored q' - stored q = (stored q' - stored q1) + (stored q1 - stored q)" by simp
  also have "\<dots> = (of_nat (length (written h')) - of_nat (length (written h))) / of_nat (nChannels q)
           - (consumed h' - consumed h) - (discarded h' - discarded h)"
    using a b by (simp add: diff_divide_distrib)
  finally show ?case using a b by auto
qed

section \<open>Reads of whole frames\<close>

lemma f32_set_nat:
  "f32_set a (of_nat s + of_nat i) v = (if s + i < length a then a[s + i := v] else a)"
proof -
  have "f32_set a (of_nat (s + i)) v = (if s + i < length a then a[s + i := v] else a)"
    unfolding f32_set_def by (simp del: of_nat_add)
  then show ?thesis by simp
qed

lemma fold_update_channels:
  assumes "m \<le> length chs"
  shows "length (fold (\<lambda>j cs. cs[j := g j (cs ! j)]) [0..<m] chs) = length chs
       \<and> (\<forall>j < length chs. fold (\<lambda>j cs. cs[j := g j (cs ! j)]) [0..<m] chs ! j
              = (if j < m then g j (chs ! j) else chs ! j))"
  using assms
proof (induction m)
  case 0
  then show ?case by simp
next
  case (Suc m)
  then show ?case by (auto simp: nth_list_update less_Suc_eq)
qed

lemma copy_frame_nth:
  assumes "n \<le> length chs" "j < length chs"
  shows "copy_frame n chunk sr i chs ! j
         = (if j < n then f32_set (chs ! j) (sr + of_nat i) (f32_get chunk (i * n + j)) else chs ! j)"
  using fold_update_channels[OF assms(1),
          of "\<lambda>j c. f32_set c (sr + of_nat i) (f32_get chunk (i * n + j))"] assms(2)
  by (simp add: copy_frame_def)

lemma length_f32_set [simp]: "length (f32_set a idx v) = length a"
  by (simp add: f32_set_def)

lemma copy_frames_cells:
  assumes "n \<le> length chs" "j < length chs"
  shows "length (fold (copy_frame n chunk (of_nat s)) [0..<k] chs ! j) = length (chs ! j)
       \<and> (\<forall>p < length (chs ! j).
             fold (copy_frame n chunk (of_nat s)) [0..<k] chs ! j ! p
               = (if j < n \<and> s \<le> p \<and> p < s + k then f32_get chunk ((p - s) * n + j)
                  else chs ! j ! p))"
proof (induction k)
  case 0
  then show ?case by auto
next
  case (Suc k)
  let ?cs = "fold (copy_frame n chunk (of_nat s)) [0..<k] chs"
  have len: "n \<le> length ?cs" "j < length ?cs" using assms by simp_all
  have step: "fold (copy_frame n chunk (of_nat s)) [0..<Suc k] chs ! j
        = (if j < n then f32_set (?cs ! j) (of_nat s + of_nat k) (f32_get chunk (k * n + j))
           else ?cs ! j)"
    using copy_frame_nth[OF len, of chunk "of_nat s" k] by simp
  show ?case
  proof (cases "j < n")
    case False
    with step Suc show ?thesis by simp
  next
    case True
    with step Suc show ?thesis
      by (auto simp: f32_set_nat nth_list_update less_Suc_eq)
  qed
qed

lemma copy_chunk_nat:
  "n \<le> length chs \<Longrightarrow>
   copy_chunk n chunk (of_nat s) (of_nat k) chs
     = Inr (fold (copy_frame n chunk (of_nat s)) [0..<k] chs)"
  by (simp add: copy_chunk_def)

lemma frames_of_chunk:
  assumes "0 < n" "n dvd length chunk"
  shows "(of_nat (length chunk) / of_nat n :: rat) = of_nat (length chunk div n)"
proof -
  from assms obtain c where c: "length chunk = n * c" by (auto simp: dvd_def)
  with assms(1) show ?thesis by simp
qed

lemma read_loop_frames:
  assumes "0 < n" "n \<le> length chs" "list_all (\<lambda>c. n dvd length c) qu"
    and "s \<le> r" "(r - s) * n \<le> length (concat qu)"
  shows "\<exists>qu' chs'. read_loop n (of_nat r) qu chs (of_nat s) = Inr (qu', chs', of_nat r)
           \<and> length chs' = length chs
           \<and> list_all (\<lambda>c. n dvd length c) qu'
           \<and> (\<forall>j < length chs. length (chs' ! j) = length (chs ! j)
                 \<and> (\<forall>p < length (chs ! j).
                       chs' ! j ! p = (if j < n \<and> s \<le> p \<and> p < r
                                       then concat qu ! ((p - s) * n + j) else chs ! j ! p)))"
  using assms
proof (induction qu arbitrary: chs s)
  case Nil
  then have "r = s" by simp
  then show ?case by auto
next
  case (Cons chunk rest)
  let ?c = "length chunk div n"
  have n: "0 < n" by fact
  have len: "length chunk = ?c * n" using Cons.prems(3) by simp
  have sic: "(of_nat (length chunk) / of_nat n :: rat) = of_nat ?c"
    using frames_of_chunk[OF n, of chunk] Cons.prems(3) by simp
  show ?case
  proof (cases "s < r")
    case False
    with Cons.prems(4) have "s = r" by simp
    then show ?thesis using Cons.prems(3) by auto
  next
    case True
    let ?k = "min ?c (r - s)"
    let ?chs1 = "fold (copy_frame n chunk (of_nat s)) [0..<?k] chs"
    have toRead: "min (of_nat (length chunk) / of_nat n) (of_nat r - of_nat s) = (of_nat ?k :: rat)"
      using True by (simp add: sic of_nat_diff[symmetric] del: of_nat_diff)
    have cc: "copy_chunk n chunk (of_nat s) (of_nat ?k) chs = Inr ?chs1"
      by (rule copy_chunk_nat[OF Cons.prems(2)])
    have l1: "length ?chs1 = length chs" by simp
    have cells1: "length (?chs1 ! j) = length (chs ! j)
       \<and> (\<forall>p < length (chs ! j).
             ?chs1 ! j ! p = (if j < n \<and> s \<le> p \<and> p < s + ?k then f32_get chunk ((p - s) * n + j)
                  else chs ! j ! p))" if "j < length chs" for j
      using copy_frames_cells[OF Cons.prems(2) that] by blast
    have inchunk: "f32_get chunk ((p - s) * n + j) = (chunk @ concat rest) ! ((p - s) * n + j)"
      if "j < n" "s \<le> p" "p < s + ?k" for p j
    proof -
      from that have "p - s < ?c" by simp
      then have "Suc (p - s) \<le> ?c" by simp
      then have "Suc (p - s) * n \<le> ?c * n" by (rule mult_le_mono1)
      with that(1) have "(p - s) * n + j < length chunk" using len by simp
      then show ?thesis by (simp add: f32_get_def nth_append)
    qed
    show ?thesis
    proof (cases "?c \<le> r - s")
      case whole: True
      then have k: "?k = ?c" by simp
      have s': "s + ?c \<le> r" using whole True by simp
      have le': "(r - (s + ?c)) * n \<le> length (concat rest)"
      proof -
        have "(r - s) * n = (r - (s + ?c)) * n + ?c * n"
          using s' by (simp add: add_mult_distrib[symmetric])
        with Cons.prems(5) len show ?thesis by simp
      qed
      from Cons.IH[OF n _ _ s' le', of ?chs1] Cons.prems(2,3) l1
      obtain qu' chs' where
        rl: "read_loop n (of_nat r) rest ?chs1 (of_nat (s + ?c)) = Inr (qu', chs', of_nat r)"
        and l': "length chs' = length ?chs1"
        and dv: "list_all (\<lambda>c. n dvd length c) qu'"
        and cells': "\<forall>j < length ?chs1. length (chs' ! j) = length (?chs1 ! j)
                 \<and> (\<forall>p < length (?chs1 ! j).
                       chs' ! j ! p = (if j < n \<and> s + ?c \<le> p \<and> p < r
                                       then concat rest ! ((p - (s + ?c)) * n + j) else ?chs1 ! j ! p))"
        by auto
      have tr: "min (of_nat (length chunk) / of_nat n) (of_nat r - of_nat s)
                  = (of_nat (length chunk) / of_nat n :: rat)"
        using toRead k sic by simp
      have cc': "copy_chunk n chunk (of_nat s) (of_nat (length chunk) / of_nat n) chs = Inr ?chs1"
        using cc k sic by simp
      have lt': "(of_nat s :: rat) < of_nat r" using True by simp
      have rl': "read_loop n (of_nat r) rest ?chs1 (of_nat s + of_nat (length chunk) / of_nat n)
                  = Inr (qu', chs', of_nat r)"
        using rl sic by simp
      have loop: "read_loop n (of_nat r) (chunk # rest) chs (of_nat s) = Inr (qu', chs', of_nat r)"
        apply (subst read_loop.simps(2))
        apply (simp only: lt' tr cc' rl' if_True sum.case simp_thms)
        done
      have cells: "length (chs' ! j) = length (chs ! j)
                 \<and> (\<forall>p < length (chs ! j).
                       chs' ! j ! p = (if j < n \<and> s \<le> p \<and> p < r
                                       then concat (chunk # rest) ! ((p - s) * n + j) else chs ! j ! p))"
        if j: "j < length chs" for j
      proof (intro conjI allI impI)
        show lj: "length (chs' ! j) = length (chs ! j)"
          using cells' cells1[OF j] j l1 by simp
        fix p assume p: "p < length (chs ! j)"
        have c1: "chs' ! j ! p = (if j < n \<and> s + ?c \<le> p \<and> p < r
                    then concat rest ! ((p - (s + ?c)) * n + j) else ?chs1 ! j ! p)"
          using cells' cells1[OF j] j l1 p by simp
        have c2: "?chs1 ! j ! p = (if j < n \<and> s \<le> p \<and> p < s + ?c
                    then f32_get chunk ((p - s) * n + j) else chs ! j ! p)"
          using cells1[OF j] p k by simp
        show "chs' ! j ! p = (if j < n \<and> s \<le> p \<and> p < r
                 then concat (chunk # rest) ! ((p - s) * n + j) else chs ! j ! p)"
        proof (cases "j < n \<and> s \<le> p \<and> p < r")
          case False
          with c1 c2 s' show ?thesis by auto
        next
          case in_range: True
          show ?thesis
          proof (cases "p < s + ?c")
            case True
            with in_range c1 c2 inchunk[of j p] k show ?thesis by simp
          next
            case False
            then have ge: "s + ?c \<le> p" by simp
            have "(p - s) * n + j = length chunk + ((p - (s + ?c)) * n + j)"
            proof -
              have "p - s = (p - (s + ?c)) + ?c" using ge by simp
              then have "(p - s) * n = (p - (s + ?c)) * n + ?c * n"
                by (metis add_mult_distrib)
              then show ?thesis using len by simp
            qed
            then have "concat (chunk # rest) ! ((p - s) * n + j)
                       = concat rest ! ((p - (s + ?c)) * n + j)"
              by (simp add: nth_append)
            with in_range ge c1 show ?thesis by simp
          qed
        qed
      qed
      show ?thesis using loop l' l1 dv cells by auto
    next
      case part: False
      then have k: "?k = r - s" and lt: "r - s < ?c" by simp_all
      have ne: "(of_nat (r - s) :: rat) \<noteq> of_nat ?c" using lt by simp
      have fl: "nat \<lfloor>(of_nat (r - s) :: rat) * of_nat n\<rfloor> = (r - s) * n"
      proof -
        have "(of_nat (r - s) :: rat) * of_nat n = of_nat ((r - s) * n)" by simp
        then show ?thesis by (simp only: floor_of_nat nat_int)
      qed
      have sr: "(of_nat s :: rat) + of_nat (r - s) = of_nat r"
        using True by (simp add: of_nat_diff)
      have tr: "min (of_nat (length chunk) / of_nat n) (of_nat r - of_nat s) = (of_nat (r - s) :: rat)"
        using toRead k by simp
      have cc': "copy_chunk n chunk (of_nat s) (of_nat (r - s)) chs = Inr ?chs1"
        using cc k by simp
      have ne': "(of_nat (r - s) :: rat) \<noteq> of_nat (length chunk) / of_nat n"
        using ne sic by simp
      have lt': "(of_nat s :: rat) < of_nat r" using True by simp
      have loop: "read_loop n (of_nat r) (chunk # rest) chs (of_nat s)
                  = Inr (drop ((r - s) * n) chunk # rest, ?chs1, of_nat r)"
        apply (subst read_loop.simps(2))
        apply (simp only: lt' tr cc' ne' fl sr if_True if_False sum.case)
        apply (subst read_loop.simps(2))
        apply (simp only: less_irrefl if_False)
        done
      have "n dvd length (drop ((r - s) * n) chunk)"
        using Cons.prems(3) by (simp add: dvd_diff_nat)
      then have dv: "list_all (\<lambda>c. n dvd length c) (drop ((r - s) * n) chunk # rest)"
        using Cons.prems(3) by simp
      have cells: "length (?chs1 ! j) = length (chs ! j)
                 \<and> (\<forall>p < length (chs ! j).
                       ?chs1 ! j ! p = (if j < n \<and> s \<le> p \<and> p < r
                                       then concat (chunk # rest) ! ((p - s) * n + j) else chs ! j ! p))"
        if j: "j < length chs" for j
      proof (intro conjI allI impI)
        show "length (?chs1 ! j) = length (chs ! j)" using cells1[OF j] by simp
        fix p assume p: "p < length (chs ! j)"
        have c2: "?chs1 ! j ! p = (if j < n \<and> s \<le> p \<and> p < s + ?k
                    then f32_get chunk ((p - s) * n + j) else chs ! j ! p)"
          using cells1[OF j] p by simp
        have sk: "s + ?k = r" using k True by simp
        show "?chs1 ! j ! p = (if j < n \<and> s \<le> p \<and> p < r
                 then concat (chunk # rest) ! ((p - s) * n + j) else chs ! j ! p)"
        proof (cases "j < n \<and> s \<le> p \<and> p < r")
          case False
          with c2 sk show ?thesis by auto
        next
          case True
          with c2 sk inchunk[of j p] show ?thesis by simp
        qed
      qed
      show ?thesis using loop l1 dv cells by auto
    qed
  qed
qed




lemma dvd_length_concat:
  "list_all (\<lambda>c. n dvd length c) qu \<Longrightarrow> n dvd length (concat qu)"
  by (induction qu) simp_all


lemma channel_nil [simp]: "channel n j [] = []"
  by (simp add: channel_def)

text \<open>
  A read on a queue of whole frames, with no fewer arrays than channels: what it returns,
  cell by cell, and the queue it leaves.
\<close>

lemma read_frames_cells:
  assumes wf: "whole_frames q"
    and nn: "n = nChannels q" and PP: "P = concat (queue q)"
    and rr: "r = min k (length P div n)"
    and lc: "case channels of None \<Rightarrow> True | Some chs \<Rightarrow> n \<le> length chs"
  shows "\<exists>outs q'. read k channels q = Inr (outs, q')
           \<and> whole_frames q' \<and> nChannels q' = n
           \<and> r * n \<le> length P \<and> concat (queue q') = drop (r * n) P
           \<and> getNReadableSamples q = of_nat (length P div n)
           \<and> getNReadableSamples q' = of_nat (length P div n - r)
           \<and> min (of_nat k) (getNReadableSamples q) = of_nat r
           \<and> (case channels of
                 None \<Rightarrow>
                   (if r = 0 then outs = replicate n []
                    else length outs = n
                      \<and> (\<forall>j < n. length (outs ! j) = k
                            \<and> (\<forall>p < k. outs ! j ! p = (if p < r then P ! (p * n + j) else Num 0))))
               | Some chs \<Rightarrow>
                   (if r = 0 then outs = map (\<lambda>ch. f32_fill0 ch k) chs
                    else length outs = length chs
                      \<and> (\<forall>j < length chs. length (outs ! j) = length (chs ! j)
                            \<and> (\<forall>p < length (chs ! j).
                                  outs ! j ! p = (if j < n \<and> p < r then P ! (p * n + j)
                                                  else Num 0)))))"
proof -
  let ?T = "length P div n"
  from wf nn have n: "0 < n" and cnt: "samplesInQueue q = stored q"
    and dv: "list_all (\<lambda>c. n dvd length c) (queue q)"
    by (simp_all add: whole_frames_def)
  have dP: "n dvd length P" using dvd_length_concat[OF dv] PP by simp
  have L: "length P = ?T * n" using dP by simp
  have sq: "samplesInQueue q = of_nat ?T"
    using frames_of_chunk[OF n dP] cnt nn PP by (simp add: stored_def)
  have gq: "getNReadableSamples q = of_nat ?T"
    by (simp add: getNReadableSamples_def sq)
  have rd: "min (of_nat k) (getNReadableSamples q) = (of_nat r :: rat)"
    by (simp add: gq rr)
  have rT: "r \<le> ?T" by (simp add: rr)
  have rn: "r * n \<le> length P"
  proof -
    have "r * n \<le> ?T * n" using rT by (rule mult_le_mono1)
    with L show ?thesis by simp
  qed
  let ?chs = "case channels of None \<Rightarrow> replicate n (f32_new k) | Some chs \<Rightarrow> map f32_fill0_all chs"
  have lcs: "n \<le> length ?chs" using lc by (simp split: option.splits)
  have zero: "?chs ! j ! p = Num 0" if "j < length ?chs" "p < length (?chs ! j)" for j p
    using that by (auto simp: f32_new_def f32_fill0_all_def split: option.splits)
  show ?thesis
  proof (cases "r = 0")
    case True
    have "read k channels q =
       Inr (case channels of None \<Rightarrow> replicate n (f32_new 0)
            | Some chs \<Rightarrow> map (\<lambda>ch. f32_fill0 ch k) chs, q)"
      using rd True by (cases channels) (simp_all add: read_def nn)
    moreover have "getNReadableSamples q = of_nat (?T - r)" using gq True by simp
    moreover have "case channels of
                 None \<Rightarrow> (if r = 0 then replicate n (f32_new 0) = replicate n [] else False)
               | Some chs \<Rightarrow> (if r = 0 then map (\<lambda>ch. f32_fill0 ch k) chs
                                             = map (\<lambda>ch. f32_fill0 ch k) chs else False)"
      using True by (simp add: f32_new_def split: option.splits)
    ultimately show ?thesis using True wf nn[symmetric] PP gq rd rn
      by (cases channels) simp_all
  next
    case False
    from read_loop_frames[OF n lcs dv, of 0 r] rn PP
    obtain qu' chs' where
      rl: "read_loop n (of_nat r) (queue q) ?chs 0 = Inr (qu', chs', of_nat r)"
      and l': "length chs' = length ?chs"
      and dv': "list_all (\<lambda>c. n dvd length c) qu'"
      and cells: "\<forall>j < length ?chs. length (chs' ! j) = length (?chs ! j)
                 \<and> (\<forall>p < length (?chs ! j).
                       chs' ! j ! p = (if j < n \<and> 0 \<le> p \<and> p < r
                                       then P ! ((p - 0) * n + j) else ?chs ! j ! p))"
      by auto
    have ne: "(of_nat r :: rat) \<noteq> 0" using False by simp
    let ?q' = "q\<lparr>queue := qu', samplesInQueue := samplesInQueue q - of_nat r\<rparr>"
    have rdq: "read k channels q = Inr (chs', ?q')"
      unfolding read_def Let_def rd nn[symmetric] by (simp only: ne if_False rl sum.case prod.case)
    have mn: "min (k * n) (length P) = r * n"
    proof -
      have "min (k * n) (?T * n) = min k ?T * n" using n by (simp add: min_def)
      with L rr show ?thesis by simp
    qed
    have n0: "0 < nChannels q" using n nn by simp
    note ret = read_returns[OF n0 cnt rdq]
    have dr: "concat (queue ?q') = drop (r * n) P" using ret(2) mn nn PP by simp
    have wf': "whole_frames ?q'" using ret(4) n dv' nn by (simp add: whole_frames_def)
    have gq': "getNReadableSamples ?q' = of_nat (?T - r)"
      using rT by (simp add: getNReadableSamples_def sq of_nat_diff)
    have cell: "length (chs' ! j) = length (?chs ! j)
        \<and> (\<forall>p < length (?chs ! j). chs' ! j ! p = (if j < n \<and> p < r then P ! (p * n + j) else Num 0))"
      if j: "j < length ?chs" for j
    proof (intro conjI allI impI)
      from cells j show "length (chs' ! j) = length (?chs ! j)" by blast
      fix p assume p: "p < length (?chs ! j)"
      with cells j have "chs' ! j ! p = (if j < n \<and> 0 \<le> p \<and> p < r
                                       then P ! ((p - 0) * n + j) else ?chs ! j ! p)" by blast
      then show "chs' ! j ! p = (if j < n \<and> p < r then P ! (p * n + j) else Num 0)"
        using zero[OF j p] by simp
    qed
    have shape: "case channels of
                 None \<Rightarrow>
                   (if r = 0 then chs' = replicate n []
                    else length chs' = n
                      \<and> (\<forall>j < n. length (chs' ! j) = k
                            \<and> (\<forall>p < k. chs' ! j ! p = (if p < r then P ! (p * n + j) else Num 0))))
               | Some chs \<Rightarrow>
                   (if r = 0 then chs' = map (\<lambda>ch. f32_fill0 ch k) chs
                    else length chs' = length chs
                      \<and> (\<forall>j < length chs. length (chs' ! j) = length (chs ! j)
                            \<and> (\<forall>p < length (chs ! j).
                                  chs' ! j ! p = (if j < n \<and> p < r then P ! (p * n + j)
                                                  else Num 0))))"
    proof (cases channels)
      case None
      then have c: "?chs = replicate n (f32_new k)" by simp
      have "length (chs' ! j) = k
          \<and> (\<forall>p < k. chs' ! j ! p = (if p < r then P ! (p * n + j) else Num 0))" if "j < n" for j
        using cell[of j] that by (simp add: c f32_new_def)
      then show ?thesis using None False l' by (simp add: c)
    next
      case (Some chs)
      then have c: "?chs = map f32_fill0_all chs" by simp
      have "length (chs' ! j) = length (chs ! j)
          \<and> (\<forall>p < length (chs ! j). chs' ! j ! p = (if j < n \<and> p < r then P ! (p * n + j) else Num 0))"
        if "j < length chs" for j
        using cell[of j] that by (simp add: c f32_fill0_all_def)
      then show ?thesis using Some False l' by (simp add: c)
    qed
    from rdq wf' dr gq gq' rd rn shape nn show ?thesis by auto
  qed
qed




section \<open>The counts of a sequence of operations\<close>

lemma spec_counts_Cons:
  "spec_counts n (x # xs) p = spec_counts n xs (spec_counts n [x] p)"
  by (cases x; cases p) simp_all

lemma whole_frames_count:
  assumes "whole_frames q"
  shows "getNReadableSamples q = of_nat (length (concat (queue q)) div nChannels q)"
    and "stored q = of_nat (length (concat (queue q)) div nChannels q)"
proof -
  from assms have n: "0 < nChannels q" and cnt: "samplesInQueue q = stored q"
    and dv: "list_all (\<lambda>c. nChannels q dvd length c) (queue q)"
    by (simp_all add: whole_frames_def)
  show "stored q = of_nat (length (concat (queue q)) div nChannels q)"
    using frames_of_chunk[OF n dvd_length_concat[OF dv]] by (simp add: stored_def)
  then show "getNReadableSamples q = of_nat (length (concat (queue q)) div nChannels q)"
    using cnt by (simp add: getNReadableSamples_def)
qed

text \<open>Any read that returns, on a queue of whole frames, leaves whole frames.\<close>

lemma read_keeps_whole_frames:
  assumes wf: "whole_frames q" and rd: "read k channels q = Inr (outs, q')"
  shows "whole_frames q'" and "nChannels q' = nChannels q"
    and "length (concat (queue q')) div nChannels q
           = length (concat (queue q)) div nChannels q
             - min k (length (concat (queue q)) div nChannels q)"
proof -
  let ?n = "nChannels q" and ?P = "concat (queue q)"
  let ?r = "min k (length ?P div ?n)"
  from wf have n: "0 < ?n" by (simp add: whole_frames_def)
  have goal: "whole_frames q' \<and> nChannels q' = ?n
      \<and> length (concat (queue q')) div ?n = length ?P div ?n - ?r"
  proof (cases "case channels of None \<Rightarrow> True | Some chs \<Rightarrow> ?n \<le> length chs")
    case True
    from read_frames_cells[OF wf refl refl refl True, of k] rd
    have wf': "whole_frames q'" and n': "nChannels q' = ?n"
      and gq': "getNReadableSamples q' = of_nat (length ?P div ?n - ?r)"
      by auto
    from whole_frames_count(1)[OF wf'] gq' n'
    have "(of_nat (length (concat (queue q')) div ?n) :: rat) = of_nat (length ?P div ?n - ?r)"
      by simp
    then have "length (concat (queue q')) div ?n = length ?P div ?n - ?r"
      by (simp only: of_nat_eq_iff)
    with wf' n' show ?thesis by simp
  next
    case False
    then obtain chs where c: "channels = Some chs" and short: "length chs < ?n"
      by (auto split: option.splits)
    have none: "case None :: f32array list option of None \<Rightarrow> True | Some chs \<Rightarrow> ?n \<le> length chs"
      by simp
    from read_frames_cells[OF wf refl refl refl none, of k]
    have rn: "?r * ?n \<le> length ?P"
      and mn: "min (of_nat k) (getNReadableSamples q) = (of_nat ?r :: rat)"
      by auto
    show ?thesis
    proof (cases "?r = 0")
      case True
      with mn have "min (of_nat k) (getNReadableSamples q) = (0 :: rat)" by simp
      with rd c have "q' = q" by (simp add: read_def)
      with wf True show ?thesis by simp
    next
      case r: False
      have ne: "(of_nat ?r :: rat) \<noteq> 0" using r by (simp only: of_nat_eq_0_iff not_False_eq_True)
      have m: "((of_nat ?r :: rat) - 0) * of_nat ?n = of_nat (?r * ?n)" by simp
      have mpos: "0 < ?r * ?n" using r n by simp
      have sh: "length (map f32_fill0_all chs) < ?n" using short by simp
      from read_loop_too_few_arrays[OF n sh m mpos rn]
      have "read_loop ?n (of_nat ?r) (queue q) (map f32_fill0_all chs) 0 = Inl TypeError" .
      then have "read k channels q = Inl TypeError"
        unfolding read_def Let_def mn c by (simp only: ne if_False option.case sum.case)
      with rd show ?thesis by simp
    qed
  qed
  then show "whole_frames q'" and "nChannels q' = nChannels q"
    and "length (concat (queue q')) div nChannels q
           = length (concat (queue q)) div nChannels q
             - min k (length (concat (queue q)) div nChannels q)"
    by simp_all
qed

text \<open>
  One operation that returns, on a queue of whole frames: the queue keeps whole frames and
  its frames and the frames consumed follow the counts of the spec.
\<close>

lemma whole_frames_op:
  assumes wf: "whole_frames q" and w: "whole_write (nChannels q) x"
    and r: "run_op x (h, q) = Inr (h', q')"
  shows "whole_frames q' \<and> nChannels q' = nChannels q
     \<and> (\<exists>c. consumed h' = consumed h + of_nat c
            \<and> (\<forall>t. spec_counts (nChannels q) [x] (length (concat (queue q)) div nChannels q, t)
                     = (length (concat (queue q')) div nChannels q, t + c)))"
proof (cases x)
  case (Write d)
  let ?n = "nChannels q"
  from wf have n: "0 < ?n" and dv: "list_all (\<lambda>c. ?n dvd length c) (queue q)"
    and cnt: "samplesInQueue q = stored q"
    by (simp_all add: whole_frames_def)
  from Write w have dd: "?n dvd length (data_of d)" by simp
  from Write r obtain res where wr: "write_q d q = Inr (res, q')"
    and h': "h' = h\<lparr>written := written h @ data_of d\<rparr>"
    by (auto simp: run_op_def split: sum.splits)
  note ret = write_q_returns[OF wr]
  have wf': "whole_frames q'"
    using ret write_q_stored[OF wr] n dv dd cnt by (simp add: whole_frames_def)
  have "length (concat (queue q')) div ?n
        = length (concat (queue q)) div ?n + length (data_of d) div ?n"
    using ret(3) dd dvd_length_concat[OF dv] by (simp add: div_add)
  then have "\<forall>t. spec_counts ?n [x] (length (concat (queue q)) div ?n, t)
                     = (length (concat (queue q')) div ?n, t + 0)"
    using Write by simp
  moreover have "consumed h' = consumed h + of_nat 0" using h' by simp
  ultimately show ?thesis using wf' ret(2) by blast
next
  case (Read k channels)
  let ?n = "nChannels q" and ?a = "length (concat (queue q)) div nChannels q"
  from Read r obtain outs where rd: "read k channels q = Inr (outs, q')"
    and c: "consumed h' = consumed h + (stored q - stored q')"
    by (auto simp: run_op_def split: sum.splits)
  note k = read_keeps_whole_frames[OF wf rd]
  have "stored q - stored q' = of_nat ?a - of_nat (?a - min k ?a)"
    using whole_frames_count(2)[OF wf] whole_frames_count(2)[OF k(1)] k(2,3) by simp
  also have "\<dots> = (of_nat (min k ?a) :: rat)"
    by (simp add: of_nat_diff)
  finally have "consumed h' = consumed h + of_nat (min k ?a)" using c by simp
  moreover have "\<forall>t. spec_counts ?n [x] (?a, t)
                     = (length (concat (queue q')) div ?n, t + min k ?a)"
    using Read k(3) by simp
  ultimately show ?thesis using k(1,2) by blast
next
  case Clear
  with r have q': "q' = clear q" and h': "consumed h' = consumed h"
    by (auto simp: run_op_def)
  from wf have "whole_frames (clear q)" by (simp add: whole_frames_def clear_def stored_def)
  moreover have "\<forall>t. spec_counts (nChannels q) [x] (length (concat (queue q)) div nChannels q, t)
                     = (length (concat (queue (clear q))) div nChannels q, t + 0)"
    using Clear by (simp add: clear_def)
  moreover have "consumed h' = consumed h + of_nat 0" using h' by simp
  ultimately show ?thesis using q' by (auto simp: clear_def)
qed

lemma whole_frames_run:
  assumes "whole_frames q" "list_all (whole_write (nChannels q)) ops"
    and "run ops (h, q) = Inr (h', q')"
  shows "whole_frames q' \<and> nChannels q' = nChannels q
     \<and> (\<exists>c. consumed h' = consumed h + of_nat c
            \<and> (\<forall>t. spec_counts (nChannels q) ops (length (concat (queue q)) div nChannels q, t)
                     = (length (concat (queue q')) div nChannels q, t + c)))"
  using assms
proof (induction ops arbitrary: h q)
  case Nil
  then have "h' = h" "q' = q" by simp_all
  moreover have "consumed h = consumed h + of_nat 0" by simp
  ultimately show ?case using Nil.prems(1) by (intro conjI exI[of _ 0]) simp_all
next
  case (Cons x xs)
  let ?n = "nChannels q"
  from Cons.prems(3) obtain h1 q1 where
    s1: "run_op x (h, q) = Inr (h1, q1)" and s2: "run xs (h1, q1) = Inr (h', q')"
    by (auto split: sum.splits)
  from Cons.prems(2) have wx: "whole_write ?n x" and wxs: "list_all (whole_write ?n) xs"
    by simp_all
  from whole_frames_op[OF Cons.prems(1) wx s1] obtain c1 where
    wf1: "whole_frames q1" and n1: "nChannels q1 = ?n"
    and c1: "consumed h1 = consumed h + of_nat c1"
    and sc1: "\<And>t. spec_counts ?n [x] (length (concat (queue q)) div ?n, t)
                     = (length (concat (queue q1)) div ?n, t + c1)"
    by blast
  from wxs n1 have wxs1: "list_all (whole_write (nChannels q1)) xs" by simp
  from Cons.IH[OF wf1 wxs1 s2] n1 obtain c2 where
    wf': "whole_frames q'" and n': "nChannels q' = ?n"
    and c2: "consumed h' = consumed h1 + of_nat c2"
    and sc2: "\<And>t. spec_counts ?n xs (length (concat (queue q1)) div ?n, t)
                     = (length (concat (queue q')) div ?n, t + c2)"
    by auto
  have "consumed h' = consumed h + of_nat (c1 + c2)" using c1 c2 by simp
  moreover have "\<forall>t. spec_counts ?n (x # xs) (length (concat (queue q)) div ?n, t)
                     = (length (concat (queue q')) div ?n, t + (c1 + c2))"
    by (simp only: spec_counts_Cons[of ?n x xs] sc1 sc2 add.assoc simp_thms)
  ultimately show ?case using wf' n' by blast
qed

text \<open>
  Claim C9. For every sequence of writes of whole frames, reads and clears on a new queue
  that runs without an exception: the channel count is the one given at construction; the
  queue holds whole frames; the readable count is the number of frames that the chunks
  hold, which is the count of the spec's FIFO after the same operations and is the frames
  written minus the frames that reads consumed minus the frames that clears discarded, so
  it never exceeds written minus read, is never negative, and is written minus consumed
  when nothing was cleared; the frames consumed are those that the reads of the spec's
  FIFO take. In the state reached, every read that returns takes exactly
  \<open>min(n, available)\<close> frames out of the queue, hence at most that many; every write of
  whole frames returns \<open>false\<close> with the updated readable count; a clear leaves the count
  0; none of them changes the channel count.
\<close>

theorem queue_count_is_written_minus_consumed:
  assumes new: "AudioQueue_new cap n = Inr q0"
    and whole: "list_all (whole_write n) ops"
    and run: "run ops (start q0) = Inr (h, q)"
  shows "nChannels q = n
     \<and> list_all (\<lambda>c. n dvd length c) (queue q)
     \<and> getNReadableSamples q = stored q
     \<and> getNReadableSamples q = of_nat (fst (spec_counts n ops (0, 0)))
     \<and> consumed h = of_nat (snd (spec_counts n ops (0, 0)))
     \<and> getNReadableSamples q = of_nat (length (written h)) / of_nat n - consumed h - discarded h
     \<and> getNReadableSamples q \<le> of_nat (length (written h)) / of_nat n - consumed h
     \<and> 0 \<le> getNReadableSamples q
     \<and> (Clear \<notin> set ops \<longrightarrow> discarded h = 0)
     \<and> (\<forall>k channels outs q'. read k channels q = Inr (outs, q') \<longrightarrow>
           getNReadableSamples q - getNReadableSamples q' = min (of_nat k) (getNReadableSamples q)
           \<and> stored q - stored q' = min (of_nat k) (getNReadableSamples q)
           \<and> nChannels q' = n)
     \<and> (\<forall>d res q'. n dvd length (data_of d) \<longrightarrow> write_q d q = Inr (res, q') \<longrightarrow>
           res = (False, getNReadableSamples q')
           \<and> getNReadableSamples q' = getNReadableSamples q + of_nat (length (data_of d)) / of_nat n
           \<and> nChannels q' = n)
     \<and> getNReadableSamples (clear q) = 0 \<and> nChannels (clear q) = n"
proof -
  from new have q0: "nChannels q0 = n" "0 < n" "samplesInQueue q0 = 0" "queue q0 = []"
    by (auto simp: AudioQueue_new_def split: if_splits)
  then have s0: "samplesInQueue q0 = stored q0" by (simp add: stored_def)
  have wf0: "whole_frames q0" using q0 by (simp add: whole_frames_def stored_def)
  have run': "run ops (\<lparr>written = [], delivered = replicate (nChannels q0) [], consumed = 0, discarded = 0\<rparr>, q0)
        = Inr (h, q)"
    using run by (simp add: start_def)
  from run_invariant[OF _ s0 run'] q0
  have inv: "nChannels q = n" "samplesInQueue q = stored q"
    and acc0: "stored q - stored q0
                 = of_nat (length (written h)) / of_nat n - consumed h - discarded h"
    and pos: "0 \<le> consumed h" "0 \<le> discarded h"
    and clr: "Clear \<notin> set ops \<longrightarrow> discarded h = 0"
    by simp_all
  from whole q0 have whole0: "list_all (whole_write (nChannels q0)) ops" by simp
  from whole_frames_run[OF wf0 whole0 run'] q0 obtain c where
    wf: "whole_frames q" and cc: "consumed h = of_nat c"
    and sc: "spec_counts n ops (0, 0) = (length (concat (queue q)) div n, c)"
    by auto
  from wf inv have fr: "list_all (\<lambda>c. n dvd length c) (queue q)"
    by (simp add: whole_frames_def)
  have sp1: "getNReadableSamples q = of_nat (fst (spec_counts n ops (0, 0)))"
    using whole_frames_count(1)[OF wf] inv sc by simp
  have sp2: "consumed h = of_nat (snd (spec_counts n ops (0, 0)))"
    using cc sc by simp
  have "stored q0 = 0" using q0 by (simp add: stored_def)
  with acc0 have acc: "stored q = of_nat (length (written h)) / of_nat n - consumed h - discarded h"
    by simp
  have n: "0 < nChannels q" using inv q0 by simp
  have reads: "getNReadableSamples q - getNReadableSamples q' = min (of_nat k) (getNReadableSamples q)
           \<and> stored q - stored q' = min (of_nat k) (getNReadableSamples q)
           \<and> nChannels q' = n"
    if "read k channels q = Inr (outs, q')" for k channels outs q'
    using read_returns[OF n inv(2) that] inv by (simp add: getNReadableSamples_def)
  have writes: "res = (False, getNReadableSamples q')
           \<and> getNReadableSamples q' = getNReadableSamples q + of_nat (length (data_of d)) / of_nat n
           \<and> nChannels q' = n"
    if "write_q d q = Inr (res, q')" for d res q'
    using write_q_returns[OF that] inv by (simp add: getNReadableSamples_def)
  have c1: "getNReadableSamples q = stored q"
    and c2: "getNReadableSamples q = of_nat (length (written h)) / of_nat n - consumed h - discarded h"
    and c3: "getNReadableSamples q \<le> of_nat (length (written h)) / of_nat n - consumed h"
    and c4: "0 \<le> getNReadableSamples q"
    and c5: "getNReadableSamples (clear q) = 0" "nChannels (clear q) = n"
    using inv acc pos stored_nonneg[of q] by (simp_all add: getNReadableSamples_def clear_def)
  from inv(1) fr c1 sp1 sp2 c2 c3 c4 clr reads writes c5 show ?thesis by blast
qed

theorem queue_count_is_written_minus_consumed_witness:
  "AudioQueue_new 16384 2 = Inr (fifo 2 [] 0)
   \<and> list_all (whole_write 2)
        [Write (TypedArray [Num 1, Num 2, Num 3, Num 4]), Read 1 None, Clear,
         Write (TypedArray [Num 5, Num 6, Num 7, Num 8])]
   \<and> run [Write (TypedArray [Num 1, Num 2, Num 3, Num 4]), Read 1 None, Clear,
           Write (TypedArray [Num 5, Num 6, Num 7, Num 8])] (start (fifo 2 [] 0))
       = Inr (\<lparr>written = [Num 1, Num 2, Num 3, Num 4, Num 5, Num 6, Num 7, Num 8],
               delivered = [[Num 1], [Num 2]], consumed = 1, discarded = 1\<rparr>,
              fifo 2 [[Num 5, Num 6, Num 7, Num 8]] 2)
   \<and> spec_counts 2 [Write (TypedArray [Num 1, Num 2, Num 3, Num 4]), Read 1 None, Clear,
                     Write (TypedArray [Num 5, Num 6, Num 7, Num 8])] (0, 0) = (2, 1)
   \<and> getNReadableSamples (fifo 2 [[Num 5, Num 6, Num 7, Num 8]] 2) = 8 / 2 - 1 - 1
   \<and> read 1 None (fifo 2 [[Num 5, Num 6, Num 7, Num 8]] 2)
       = Inr ([[Num 5], [Num 6]], fifo 2 [[Num 7, Num 8]] 1)
   \<and> write_q (TypedArray [Num 9, Num 10]) (fifo 2 [[Num 5, Num 6, Num 7, Num 8]] 2)
       = Inr ((False, 3), fifo 2 [[Num 5, Num 6, Num 7, Num 8], [Num 9, Num 10]] 3)"
proof -
  have new: "AudioQueue_new 16384 2 = Inr (fifo 2 [] 0)"
    by (simp add: AudioQueue_new_def)
  have whole: "list_all (whole_write 2)
        [Write (TypedArray [Num 1, Num 2, Num 3, Num 4]), Read 1 None, Clear,
         Write (TypedArray [Num 5, Num 6, Num 7, Num 8])]"
    by (simp add: data_of_def)
  have run: "run [Write (TypedArray [Num 1, Num 2, Num 3, Num 4]), Read 1 None, Clear,
           Write (TypedArray [Num 5, Num 6, Num 7, Num 8])] (start (fifo 2 [] 0))
       = Inr (\<lparr>written = [Num 1, Num 2, Num 3, Num 4, Num 5, Num 6, Num 7, Num 8],
               delivered = [[Num 1], [Num 2]], consumed = 1, discarded = 1\<rparr>,
              fifo 2 [[Num 5, Num 6, Num 7, Num 8]] 2)"
    by code_simp
  have sc: "spec_counts 2 [Write (TypedArray [Num 1, Num 2, Num 3, Num 4]), Read 1 None, Clear,
                     Write (TypedArray [Num 5, Num 6, Num 7, Num 8])] (0, 0) = (2, 1)"
    by (simp add: data_of_def)
  have rd: "read 1 None (fifo 2 [[Num 5, Num 6, Num 7, Num 8]] 2)
       = Inr ([[Num 5], [Num 6]], fifo 2 [[Num 7, Num 8]] 1)"
    by code_simp
  have wr: "write_q (TypedArray [Num 9, Num 10]) (fifo 2 [[Num 5, Num 6, Num 7, Num 8]] 2)
       = Inr ((False, 3), fifo 2 [[Num 5, Num 6, Num 7, Num 8], [Num 9, Num 10]] 3)"
    by (simp add: write_q_def)
  from queue_count_is_written_minus_consumed[OF new whole run]
  have "getNReadableSamples (fifo 2 [[Num 5, Num 6, Num 7, Num 8]] 2) = 8 / 2 - 1 - 1"
    by simp
  with new whole run sc rd wr show ?thesis by blast
qed

section \<open>Reads reconstruct the writes\<close>











end
